theory Spec2Isabelle
  imports Main "HOL-Library.Multiset" "HOL-Library.Sublist"
begin

section \<open>Text and regular expressions\<close>

text \<open>
  The document text is a Python \<open>str\<close>. It is modelled as a \<open>string\<close>, one \<open>char\<close> per
  character, which covers the code points below 256; \<open>length\<close> is then Python's \<open>len\<close>.
  The chunking functions below only look at the newline character and at lengths.
\<close>

definition nl :: char where
  "nl = CHR 0x0A"

definition sep :: string where
  "sep = [nl, nl]"

definition code :: "char \<Rightarrow> nat" where
  "code c = of_char c"

definition in_range :: "char \<Rightarrow> char \<Rightarrow> char \<Rightarrow> bool" where
  "in_range lo hi c = (code lo \<le> code c \<and> code c \<le> code hi)"

text \<open>
  The character classes of Python's \<open>re\<close> for \<open>str\<close> patterns, on the code points below 256:
  \<open>\s\<close> is Unicode white space, \<open>\d\<close> a decimal digit, \<open>\w\<close> an alphanumeric character
  or the underscore.
\<close>

definition is_space :: "char \<Rightarrow> bool" where
  "is_space c = (let n = code c in (9 \<le> n \<and> n \<le> 13) \<or> (28 \<le> n \<and> n \<le> 32) \<or> n = 133 \<or> n = 160)"

definition is_digit :: "char \<Rightarrow> bool" where
  "is_digit c = in_range CHR ''0'' CHR ''9'' c"

definition is_upper :: "char \<Rightarrow> bool" where
  "is_upper c = in_range CHR ''A'' CHR ''Z'' c"

definition is_lower :: "char \<Rightarrow> bool" where
  "is_lower c = in_range CHR ''a'' CHR ''z'' c"

definition is_word :: "char \<Rightarrow> bool" where
  "is_word c = (let n = code c in
     is_digit c \<or> is_upper c \<or> is_lower c \<or> c = CHR ''_'' \<or>
     n = 170 \<or> n = 178 \<or> n = 179 \<or> n = 181 \<or> n = 185 \<or> n = 186 \<or>
     (188 \<le> n \<and> n \<le> 190) \<or> (192 \<le> n \<and> n \<le> 214) \<or> (216 \<le> n \<and> n \<le> 246) \<or> 248 \<le> n)"

text \<open>
  The fragment of regular expressions the five header patterns use. A symbol is a
  character class; \<open>EndOfString\<close> is \<open>$\<close> without the MULTILINE flag; \<open>Star\<close> is the greedy
  repetition.
\<close>

datatype regex =
    Sym "char \<Rightarrow> bool"
  | Eps
  | EndOfString
  | Seq regex regex
  | Alt regex regex
  | Star regex

text \<open>
  \<open>leftovers r s\<close> lists what remains of \<open>s\<close> after each way \<open>r\<close> can match a prefix of it,
  in the order in which a backtracking matcher tries them: a greedy repetition first takes
  one more iteration, an alternation first takes its left branch. The head of the list is
  the match Python's \<open>re\<close> reports. An iteration of a repetition that consumes nothing is
  not repeated.
\<close>

fun leftovers :: "regex \<Rightarrow> string \<Rightarrow> string list" where
  "leftovers (Sym P) s = (case s of [] \<Rightarrow> [] | c # cs \<Rightarrow> if P c then [cs] else [])"
| "leftovers Eps s = [s]"
| "leftovers EndOfString s = (if s = [] \<or> s = [nl] then [s] else [])"
| "leftovers (Seq a b) s = concat (map (leftovers b) (leftovers a s))"
| "leftovers (Alt a b) s = leftovers a s @ leftovers b s"
| "leftovers (Star a) s =
     concat (map (\<lambda>s'. if length s' < length s then leftovers (Star a) s' else [])
                 (leftovers a s)) @ [s]"

definition plus :: "regex \<Rightarrow> regex" where
  "plus r = Seq r (Star r)"

definition opt :: "regex \<Rightarrow> regex" where
  "opt r = Alt r Eps"

definition chr :: "char \<Rightarrow> regex" where
  "chr c = Sym (\<lambda>x. x = c)"

definition one_of :: "string \<Rightarrow> regex" where
  "one_of cs = Sym (\<lambda>x. x \<in> set cs)"

definition lit :: "string \<Rightarrow> regex" where
  "lit s = foldr (\<lambda>c r. Seq (chr c) r) s Eps"

definition seqs :: "regex list \<Rightarrow> regex" where
  "seqs rs = foldr Seq rs Eps"

text \<open>
  \<open>re.finditer\<close>: the starts of the non-overlapping matches, scanning from the left. The
  search resumes where the last match ended. \<open>scan r pos s\<close> searches \<open>s\<close>, the text from
  offset \<open>pos\<close> on. (A match that consumes nothing moves the search one character on; the
  patterns here all start with a newline and never match the empty string.)
\<close>

function scan :: "regex \<Rightarrow> nat \<Rightarrow> string \<Rightarrow> nat list" where
  "scan r pos s =
     (case leftovers r s of
        [] \<Rightarrow> (case s of [] \<Rightarrow> [] | _ # s' \<Rightarrow> scan r (Suc pos) s')
      | rest # _ \<Rightarrow>
          pos # (if length rest < length s then scan r (pos + (length s - length rest)) rest
                 else (case s of [] \<Rightarrow> [] | _ # s' \<Rightarrow> scan r (Suc pos) s')))"
  by pat_completeness auto
termination
  by (relation "measure (\<lambda>(r, pos, s). length s)") auto

definition finditer_starts :: "regex \<Rightarrow> string \<Rightarrow> nat list" where
  "finditer_starts r text = scan r 0 text"

section \<open>Segmenter\<close>

text \<open>
  The five header patterns of \<open>detect_section_boundaries\<close>, in the source's order:
  \<^verbatim>\<open>\n\s*(?:SECTION|Section)\s+\d+[.:]\s+\w+\<close>,
  \<^verbatim>\<open>\n\s*\d+(?:\.\d+)*\s+[A-Z][a-zA-Z\s]+\<close>,
  \<^verbatim>\<open>\n\s*[IVXLCDM]+\.\s+[A-Z][a-zA-Z\s]+\<close>,
  \<^verbatim>\<open>\n\s*[A-Z][A-Z\s]{2,}(?:\s*\([^)]+\))?\s*$\<close>,
  \<^verbatim>\<open>\n\s*(?:ARTICLE|Article)\s+[IVXLCDM]+[.:]\s+\w+\<close>.
\<close>

definition roman :: regex where
  "roman = one_of ''IVXLCDM''"

definition letter_or_space :: regex where
  "letter_or_space = Sym (\<lambda>c. is_lower c \<or> is_upper c \<or> is_space c)"

definition upper_or_space :: regex where
  "upper_or_space = Sym (\<lambda>c. is_upper c \<or> is_space c)"

definition patterns :: "regex list" where
  "patterns =
    [seqs [chr nl, Star (Sym is_space), Alt (lit ''SECTION'') (lit ''Section''),
           plus (Sym is_space), plus (Sym is_digit), one_of ''.:'', plus (Sym is_space),
           plus (Sym is_word)],
     seqs [chr nl, Star (Sym is_space), plus (Sym is_digit),
           Star (Seq (chr CHR ''.'') (plus (Sym is_digit))), plus (Sym is_space),
           Sym is_upper, plus letter_or_space],
     seqs [chr nl, Star (Sym is_space), plus roman, chr CHR ''.'', plus (Sym is_space),
           Sym is_upper, plus letter_or_space],
     seqs [chr nl, Star (Sym is_space), Sym is_upper,
           upper_or_space, upper_or_space, Star upper_or_space,
           opt (seqs [Star (Sym is_space), chr CHR ''('',
                      plus (Sym (\<lambda>c. c \<noteq> CHR '')'')), chr CHR '')'']),
           Star (Sym is_space), EndOfString],
     seqs [chr nl, Star (Sym is_space), Alt (lit ''ARTICLE'') (lit ''Article''),
           plus (Sym is_space), plus roman, one_of ''.:'', plus (Sym is_space),
           plus (Sym is_word)]]"

text \<open>
  \<open>detect_section_boundaries\<close>: offset 0, then the start of every match of every pattern;
  \<open>sorted(set(boundaries))\<close> removes the duplicates and sorts.
\<close>

definition detect_section_boundaries :: "string \<Rightarrow> nat list" where
  "detect_section_boundaries text =
     (let boundaries = [0] @ concat (map (\<lambda>pattern. finditer_starts pattern text) patterns)
      in sort (remdups boundaries))"

section \<open>Chunker\<close>

text \<open>
  The summarizer object: \<open>__init__\<close> stores its four arguments. The summarization
  capability is a function of the prompt that either returns a response string or raises.
  An exception is kept as its message \<open>str(e)\<close>, together with whether \<open>except Exception\<close>
  catches it: \<open>Exception\<close> is any instance of Python's class \<open>Exception\<close>, \<open>NonException\<close>
  an instance of \<open>BaseException\<close> outside that class (such as \<open>KeyboardInterrupt\<close> or
  \<open>SystemExit\<close>).
\<close>

datatype raised = Exception string | NonException string

record summarizer =
  llm_api :: "string \<Rightarrow> raised + string"
  chunk_size :: int
  overlap :: int
  max_workers :: int

definition PDFSummarizer :: "(string \<Rightarrow> raised + string) \<Rightarrow> int \<Rightarrow> int \<Rightarrow> int \<Rightarrow> summarizer" where
  "PDFSummarizer llm_api_wrapper cs ov mw =
     \<lparr>llm_api = llm_api_wrapper, chunk_size = cs, overlap = ov, max_workers = mw\<rparr>"

text \<open>The placeholder capability of the source's usage example (source lines 248 to 254).\<close>

definition example_llm_api :: "string \<Rightarrow> raised + string" where
  "example_llm_api prompt =
     Inr (''This is where the LLM response would be for: '' @ take 50 prompt @ ''...'')"

text \<open>\<open>str.split('\n\n')\<close>: cut at each occurrence of two newlines, found from the left.\<close>

fun split_paragraphs :: "string \<Rightarrow> string list" where
  "split_paragraphs [] = [[]]"
| "split_paragraphs [c] = [[c]]"
| "split_paragraphs (c # d # cs) =
     (if c = nl \<and> d = nl then [] # split_paragraphs cs
      else (case split_paragraphs (d # cs) of
              [] \<Rightarrow> [[c]]
            | para # paragraphs \<Rightarrow> (c # para) # paragraphs))"

text \<open>The slice \<open>text[a:b]\<close> for offsets \<open>a\<close>, \<open>b\<close> that are not negative.\<close>

definition slice :: "string \<Rightarrow> nat \<Rightarrow> nat \<Rightarrow> string" where
  "slice text a b = take (b - a) (drop a text)"

text \<open>
  The inner loop of the boundary path (source lines 98 to 104), on the pair
  \<open>(final_chunks, current_chunk)\<close>: a paragraph joins the current chunk while the lengths
  add up to less than \<open>chunk_size\<close>; otherwise the current chunk is emitted, if it is not
  empty, and the paragraph starts the next one.
\<close>

fun resplit_loop :: "int \<Rightarrow> string list \<Rightarrow> string list \<times> string \<Rightarrow> string list \<times> string" where
  "resplit_loop cs [] (final_chunks, current_chunk) = (final_chunks, current_chunk)"
| "resplit_loop cs (para # paragraphs) (final_chunks, current_chunk) =
     (if int (length current_chunk) + int (length para) < cs
      then resplit_loop cs paragraphs (final_chunks, current_chunk @ para @ sep)
      else resplit_loop cs paragraphs
             (if current_chunk \<noteq> [] then final_chunks @ [current_chunk] else final_chunks,
              para @ sep))"

text \<open>
  The test \<open>len(chunk) > self.chunk_size * 1.5\<close>, written without the floating-point
  product as \<open>2 * len(chunk) > 3 * chunk_size\<close>.
\<close>

definition oversized :: "int \<Rightarrow> string \<Rightarrow> bool" where
  "oversized cs chunk = (2 * int (length chunk) > 3 * cs)"

text \<open>One round of the loop over the sections (source lines 93 to 108).\<close>

definition resplit :: "int \<Rightarrow> string list \<Rightarrow> string \<Rightarrow> string list" where
  "resplit cs final_chunks chunk =
     (if oversized cs chunk
      then (case resplit_loop cs (split_paragraphs chunk) (final_chunks, []) of
              (final_chunks', current_chunk) \<Rightarrow>
                if current_chunk \<noteq> [] then final_chunks' @ [current_chunk] else final_chunks')
      else final_chunks @ [chunk])"

text \<open>The loop of the fallback path (source lines 117 to 122): the append has no guard.\<close>

fun fallback_loop :: "int \<Rightarrow> string list \<Rightarrow> string list \<times> string \<Rightarrow> string list \<times> string" where
  "fallback_loop cs [] (chunks, current_chunk) = (chunks, current_chunk)"
| "fallback_loop cs (para # paragraphs) (chunks, current_chunk) =
     (if int (length current_chunk) + int (length para) < cs
      then fallback_loop cs paragraphs (chunks, current_chunk @ para @ sep)
      else fallback_loop cs paragraphs (chunks @ [current_chunk], para @ sep))"

definition fallback_chunks :: "int \<Rightarrow> string \<Rightarrow> string list" where
  "fallback_chunks cs text =
     (case fallback_loop cs (split_paragraphs text) ([], []) of
        (chunks, current_chunk) \<Rightarrow>
          if current_chunk \<noteq> [] then chunks @ [current_chunk] else chunks)"

text \<open>The sections between consecutive boundaries, and the last one to the end of the text.\<close>

definition section_chunks :: "string \<Rightarrow> nat list \<Rightarrow> string list" where
  "section_chunks text boundaries =
     map (\<lambda>i. slice text (boundaries ! i) (boundaries ! (i + 1))) [0..<length boundaries - 1]
     @ [drop (last boundaries) text]"

definition create_semantic_chunks :: "'a summarizer_scheme \<Rightarrow> string \<Rightarrow> string list" where
  "create_semantic_chunks self text =
     (let boundaries = detect_section_boundaries text in
      if length boundaries > 1 \<and> length boundaries < 30
      then foldl (resplit (chunk_size self)) [] (section_chunks text boundaries)
      else fallback_chunks (chunk_size self) text)"

section \<open>Chunk summarizer and reducer\<close>

text \<open>
  The metadata dictionary, each value as the text an f-string renders for it.
\<close>

type_synonym metadata = "string \<rightharpoonup> string"

definition get_or :: "metadata \<Rightarrow> string \<Rightarrow> string \<Rightarrow> string" where
  "get_or m key fallback = (case m key of None \<Rightarrow> fallback | Some v \<Rightarrow> v)"

definition chunk_prompt :: "string \<Rightarrow> metadata \<Rightarrow> bool \<Rightarrow> string" where
  "chunk_prompt chunk md is_financial =
     (if is_financial then
        ''Summarize the following section of a financial document. \<newline>Focus on preserving:\<newline>1. Important financial terms, metrics, and numbers\<newline>2. Policy statements and legal obligations\<newline>3. Risk factors and warnings\<newline>4. Key dates, timelines, and deadlines\<newline>\<newline>Document Title: ''
        @ get_or md ''title'' ''Unknown''
        @ ''\<newline>Document Section:\<newline>'' @ chunk
        @ ''\<newline>\<newline>Provide a concise yet comprehensive summary that maintains all critical financial information and regulatory details:''
      else
        ''Summarize the following section of a document.\<newline>Document Title: ''
        @ get_or md ''title'' ''Unknown''
        @ ''\<newline>Document Section:\<newline>'' @ chunk
        @ ''\<newline>\<newline>Provide a concise yet comprehensive summary:'')"

definition summarize_chunk :: "'a summarizer_scheme \<Rightarrow> string \<Rightarrow> metadata \<Rightarrow> bool \<Rightarrow> raised + string" where
  "summarize_chunk self chunk md is_financial = llm_api self (chunk_prompt chunk md is_financial)"

text \<open>Decimal digits of a number, as \<open>str\<close> gives them.\<close>

function show_nat :: "nat \<Rightarrow> string" where
  "show_nat n =
     (if n < 10 then [char_of (48 + n)] else show_nat (n div 10) @ [char_of (48 + n mod 10)])"
  by pat_completeness auto
termination
  by (relation "measure id") auto

fun join :: "string \<Rightarrow> string list \<Rightarrow> string" where
  "join s [] = []"
| "join s [x] = x"
| "join s (x # y # ys) = x @ s @ join s (y # ys)"

definition section_lines :: "string list \<Rightarrow> string list" where
  "section_lines summaries =
     map (\<lambda>(i, summary). ''Section '' @ show_nat (i + 1) @ '' Summary:\<newline>'' @ summary)
         (zip [0..<length summaries] summaries)"

definition reduce_prompt :: "string list \<Rightarrow> metadata \<Rightarrow> bool \<Rightarrow> string" where
  "reduce_prompt summaries md is_financial =
     (let all_summaries = join sep (section_lines summaries);
          header =
            ''Below are summaries of each section of the document.\<newline>\<newline>Document Title: ''
            @ get_or md ''title'' ''Unknown''
            @ ''\<newline>Document Author: '' @ get_or md ''author'' ''Unknown''
            @ ''\<newline>Document Keywords: '' @ get_or md ''keywords'' []
            @ ''\<newline>Total Pages: '' @ get_or md ''page_count'' ''Unknown''
            @ ''\<newline>\<newline>'' @ all_summaries @ ''\<newline>\<newline>''
      in if is_financial then
           ''You are creating a final comprehensive summary of a financial document.\<newline>''
           @ header
           @ ''Create a well-structured final summary of the entire document that:\<newline>1. Preserves all critical financial information, terms, and metrics\<newline>2. Maintains all policy statements and compliance requirements\<newline>3. Highlights key risk factors and warnings\<newline>4. Organizes information logically by sections\<newline>5. Includes important dates, deadlines, and timelines\<newline>\<newline>The summary should be comprehensive enough to serve as a reliable reference to the original document:''
         else
           ''You are creating a final comprehensive summary of a document.\<newline>''
           @ header
           @ ''Create a well-structured final summary of the entire document that captures all the key information and maintains the logical flow:'')"

definition summarize_summaries :: "'a summarizer_scheme \<Rightarrow> string list \<Rightarrow> metadata \<Rightarrow> bool \<Rightarrow> raised + string" where
  "summarize_summaries self summaries md is_financial =
     llm_api self (reduce_prompt summaries md is_financial)"

section \<open>Parallel dispatcher and pipeline\<close>

text \<open>
  \<open>as_completed\<close> yields every submitted future once, in the order in which the worker
  threads finish. That order is not determined by the program; it is modelled by the list
  \<open>picks\<close> of the scheduler's choices: each pick selects, among the futures still pending,
  the one that completes next (when the picks run out, the first pending one).
\<close>

fun as_completed :: "nat list \<Rightarrow> 'a list \<Rightarrow> 'a list" where
  "as_completed picks [] = []"
| "as_completed [] (f # pending) = f # as_completed [] pending"
| "as_completed (p # picks) (f # pending) =
     (let k = p mod length (f # pending)
      in (f # pending) ! k # as_completed picks (take k (f # pending) @ drop (Suc k) (f # pending)))"

definition error_placeholder :: "string \<Rightarrow> string" where
  "error_placeholder e = ''[Error summarizing this section: '' @ e @ '']''"

text \<open>
  The loop over the completed futures (source lines 222 to 229). A future is the pair of
  its chunk index and the outcome of \<open>summarize_chunk\<close>, which \<open>future.result()\<close> returns or
  raises again. \<open>except Exception\<close> turns an \<open>Exception\<close> into the placeholder; anything else
  leaves the loop. The line that the handler prints is not part of the result and is left
  out.
\<close>

fun collect :: "(nat \<times> (raised + string)) list \<Rightarrow> (nat \<times> string) list \<Rightarrow> raised + (nat \<times> string) list" where
  "collect [] chunk_summaries = Inr chunk_summaries"
| "collect ((chunk_idx, Inr summary) # futures) chunk_summaries =
     collect futures (chunk_summaries @ [(chunk_idx, summary)])"
| "collect ((chunk_idx, Inl (Exception e)) # futures) chunk_summaries =
     collect futures (chunk_summaries @ [(chunk_idx, error_placeholder e)])"
| "collect ((chunk_idx, Inl (NonException e)) # futures) chunk_summaries =
     Inl (NonException e)"

record summary_result =
  metadata :: metadata
  chunk_count :: nat
  section_summaries :: "string list"
  final_summary :: string

text \<open>
  \<open>summarize_pdf\<close> from the extracted text and metadata on (source lines 212 to 244); reading
  the PDF file is outside the model. The thread pool refuses a worker count that is not
  positive with a \<open>ValueError\<close>. \<open>list.sort\<close> with a key is stable, as \<open>sort_key\<close> is.
\<close>

definition map_stage :: "'a summarizer_scheme \<Rightarrow> nat list \<Rightarrow> string list \<Rightarrow> metadata \<Rightarrow> bool \<Rightarrow> raised + (nat \<times> string) list" where
  "map_stage self picks chunks md is_financial =
     (let future_to_chunk =
            map (\<lambda>(i, chunk). (i, summarize_chunk self chunk md is_financial))
                (zip [0..<length chunks] chunks)
      in collect (as_completed picks future_to_chunk) [])"

definition summarize_pdf :: "'a summarizer_scheme \<Rightarrow> nat list \<Rightarrow> string \<Rightarrow> metadata \<Rightarrow> bool \<Rightarrow> raised + summary_result" where
  "summarize_pdf self picks text md is_financial =
     (let chunks = create_semantic_chunks self text in
      if max_workers self \<le> 0 then Inl (Exception ''max_workers must be greater than 0'')
      else
        case map_stage self picks chunks md is_financial of
          Inl e \<Rightarrow> Inl e
        | Inr chunk_summaries \<Rightarrow>
            (let summaries = map snd (sort_key fst chunk_summaries) in
             (case summarize_summaries self summaries md is_financial of
                Inl e \<Rightarrow> Inl e
              | Inr final \<Rightarrow>
                  Inr \<lparr>metadata = md, chunk_count = length chunks,
                       section_summaries = summaries, final_summary = final\<rparr>)))"

section \<open>Notions used in the statements\<close>

text \<open>
  The sections in recursive form: the same list as \<open>section_chunks\<close> for a list of
  boundaries that is not empty.
\<close>

fun spans :: "string \<Rightarrow> nat list \<Rightarrow> string list" where
  "spans text [] = []"
| "spans text [b] = [drop b text]"
| "spans text (a # b # bs) = slice text a b # spans text (b # bs)"

text \<open>
  \<open>disjoint_cover text chunks\<close>: the text is cut into consecutive pieces, one for each chunk,
  and each chunk is its piece, or its piece followed by the separator. Every character of
  the text then lies in exactly one chunk.
\<close>

definition disjoint_cover :: "string \<Rightarrow> string list \<Rightarrow> bool" where
  "disjoint_cover text chunks =
     (\<exists>pieces. concat pieces = text \<and>
        list_all2 (\<lambda>chunk piece. chunk = piece \<or> chunk = piece @ sep) chunks pieces)"

text \<open>
  The size bound on a sub-chunk that re-splitting keeps, given the paragraphs of the
  section: the separator that follows each paragraph is not counted by the test of the
  loop, so the bound is \<open>chunk_size + 1\<close>; beyond it lies only a single paragraph that is at
  least \<open>chunk_size\<close> long, followed by its separator.
\<close>

definition within_target :: "int \<Rightarrow> string list \<Rightarrow> string \<Rightarrow> bool" where
  "within_target cs paragraphs sub =
     (int (length sub) \<le> cs + 1 \<or>
      (\<exists>para \<in> set paragraphs. sub = para @ sep \<and> cs \<le> int (length para)))"

text \<open>
  What the map stage records for the outcome of one chunk: the summary, or the placeholder
  for an exception that \<open>except Exception\<close> catches. \<open>captured\<close> says that the outcome is one
  of these two.
\<close>

fun captured :: "raised + string \<Rightarrow> bool" where
  "captured (Inr summary) = True"
| "captured (Inl (Exception e)) = True"
| "captured (Inl (NonException e)) = False"

fun entry :: "raised + string \<Rightarrow> string" where
  "entry (Inr summary) = summary"
| "entry (Inl (Exception e)) = error_placeholder e"
| "entry (Inl (NonException e)) = error_placeholder e"

text \<open>
  A capability for the examples: it raises on the prompts that start with \<open>trigger\<close> and
  otherwise replies with the length of the prompt.
\<close>

definition flaky_llm_api :: "string \<Rightarrow> string \<Rightarrow> raised + string" where
  "flaky_llm_api trigger prompt =
     (if prefix trigger prompt then Inl (Exception ''timeout'')
      else Inr (''reply to '' @ show_nat (length prompt) @ '' characters''))"

section \<open>Properties of the segmenter\<close>

declare scan.simps [simp del]

lemma boundaries_set:
  "set (detect_section_boundaries text) =
     insert 0 (\<Union>p \<in> set patterns. set (finditer_starts p text))"
  by (auto simp: detect_section_boundaries_def)

lemma boundaries_strict: "sorted_wrt (<) (detect_section_boundaries text)"
  by (simp add: detect_section_boundaries_def strict_sorted_iff)

lemma boundaries_nonempty: "detect_section_boundaries text \<noteq> []"
proof -
  have "0 \<in> set (detect_section_boundaries text)" by (simp add: boundaries_set)
  then show ?thesis by auto
qed

lemma boundaries_hd: "hd (detect_section_boundaries text) = 0"
proof -
  let ?bs = "detect_section_boundaries text"
  have ne: "?bs \<noteq> []" by (rule boundaries_nonempty)
  have "0 \<in> set ?bs" by (simp add: boundaries_set)
  moreover have "sorted ?bs" using boundaries_strict strict_sorted_iff by blast
  ultimately have "hd ?bs \<le> 0" using ne by (cases ?bs) auto
  then show ?thesis by simp
qed

text \<open>A match found while scanning the text from offset \<open>pos\<close> starts inside that part.\<close>

lemma scan_range: "p \<in> set (scan r pos s) \<Longrightarrow> pos \<le> p \<and> p \<le> pos + length s"
proof (induction r pos s arbitrary: p rule: scan.induct)
  case (1 r pos s)
  from "1.prems" have mem: "p \<in> set (case leftovers r s of
        [] \<Rightarrow> (case s of [] \<Rightarrow> [] | _ # s' \<Rightarrow> scan r (Suc pos) s')
      | rest # _ \<Rightarrow>
          pos # (if length rest < length s then scan r (pos + (length s - length rest)) rest
                 else (case s of [] \<Rightarrow> [] | _ # s' \<Rightarrow> scan r (Suc pos) s')))"
    by (subst (asm) scan.simps)
  show ?case
  proof (cases "leftovers r s")
    case Nil
    show ?thesis
    proof (cases s)
      case Nil': Nil
      with Nil mem show ?thesis by simp
    next
      case (Cons c s')
      with Nil mem have "p \<in> set (scan r (Suc pos) s')" by simp
      from "1.IH"(1)[OF Nil Cons this] Cons show ?thesis by simp
    qed
  next
    case (Cons rest rs)
    show ?thesis
    proof (cases "p = pos")
      case True then show ?thesis by simp
    next
      case False
      show ?thesis
      proof (cases "length rest < length s")
        case True
        with Cons False mem have "p \<in> set (scan r (pos + (length s - length rest)) rest)"
          by simp
        from "1.IH"(2)[OF Cons True this] True show ?thesis by arith
      next
        case nlt: False
        show ?thesis
        proof (cases s)
          case Nil
          with Cons False nlt mem show ?thesis by simp
        next
          case c: (Cons c s')
          with Cons False nlt mem have "p \<in> set (scan r (Suc pos) s')" by simp
          from "1.IH"(3)[OF Cons nlt c this] c show ?thesis by simp
        qed
      qed
    qed
  qed
qed

lemma boundaries_in_text: "b \<in> set (detect_section_boundaries text) \<Longrightarrow> b \<le> length text"
  by (auto simp: boundaries_set finditer_starts_def dest: scan_range)

text \<open>
  Claim C8. For every text, \<open>detect_section_boundaries\<close> returns a strictly increasing list
  (so sorted and free of duplicates) of offsets that are natural numbers not beyond the end
  of the text; the list contains offset 0; the function is total; and when no pattern
  matches, the result is exactly \<open>[0]\<close>.
\<close>

theorem detect_section_boundaries_strictly_increasing:
  "sorted_wrt (<) (detect_section_boundaries text)
   \<and> distinct (detect_section_boundaries text)
   \<and> 0 \<in> set (detect_section_boundaries text)
   \<and> (\<forall>b \<in> set (detect_section_boundaries text). b \<le> length text)
   \<and> ((\<forall>pattern \<in> set patterns. finditer_starts pattern text = [])
        \<longrightarrow> detect_section_boundaries text = [0])"
proof -
  have "distinct (detect_section_boundaries text)"
    using boundaries_strict strict_sorted_iff by blast
  moreover have "0 \<in> set (detect_section_boundaries text)"
    by (simp add: boundaries_set)
  moreover have "(\<forall>pattern \<in> set patterns. finditer_starts pattern text = [])
        \<longrightarrow> detect_section_boundaries text = [0]"
  proof
    assume "\<forall>pattern \<in> set patterns. finditer_starts pattern text = []"
    then have none: "concat (map (\<lambda>pattern. finditer_starts pattern text) patterns) = []"
      by simp
    show "detect_section_boundaries text = [0]"
      unfolding detect_section_boundaries_def Let_def none by simp
  qed
  ultimately show ?thesis
    using boundaries_strict boundaries_in_text by blast
qed

theorem detect_section_boundaries_strictly_increasing_witness:
  "map (\<lambda>pattern. finditer_starts pattern ''Intro. No header here'') patterns
     = [[], [], [], [], []]
   \<and> detect_section_boundaries ''Intro. No header here'' = [0]"
proof -
  have none: "map (\<lambda>pattern. finditer_starts pattern ''Intro. No header here'') patterns
     = [[], [], [], [], []]"
    by code_simp
  have "length patterns = 5"
    by (simp add: patterns_def)
  with none have "\<forall>pattern \<in> set patterns. finditer_starts pattern ''Intro. No header here'' = []"
    by (metis (no_types, lifting) in_set_conv_nth length_map nth_map nth_mem set_ConsD
        empty_iff empty_set)
  with detect_section_boundaries_strictly_increasing [of "''Intro. No header here''"] none
  show ?thesis by blast
qed

section \<open>Properties of the chunker\<close>


lemma split_paragraphs_nonempty: "split_paragraphs t \<noteq> []"
  by (induction t rule: split_paragraphs.induct) (auto split: list.splits)

lemma concat_split_paragraphs:
  "concat (map (\<lambda>para. para @ sep) (split_paragraphs t)) = t @ sep"
proof (induction t rule: split_paragraphs.induct)
  case 1
  show ?case by simp
next
  case (2 c)
  show ?case by simp
next
  case (3 c d cs)
  show ?case
  proof (cases "c = nl \<and> d = nl")
    case True
    with 3 show ?thesis by (simp add: sep_def)
  next
    case False
    with 3 split_paragraphs_nonempty[of "d # cs"] show ?thesis
      by (auto split: list.splits)
  qed
qed

lemma resplit_loop_acc:
  "resplit_loop cs ps (final, cur) =
     (final @ fst (resplit_loop cs ps ([], cur)), snd (resplit_loop cs ps ([], cur)))"
proof (induction ps arbitrary: final cur)
  case Nil
  show ?case by simp
next
  case (Cons para ps)
  show ?case
    using Cons.IH[of final "cur @ para @ sep"]
          Cons.IH[of "final @ [cur]" "para @ sep"] Cons.IH[of final "para @ sep"]
          Cons.IH[of "[cur]" "para @ sep"]
    by (simp add: prod_eq_iff)
qed

lemma resplit_loop_concat:
  "concat (fst (resplit_loop cs ps (final, cur))) @ snd (resplit_loop cs ps (final, cur)) =
     concat final @ cur @ concat (map (\<lambda>para. para @ sep) ps)"
  by (induction ps arbitrary: final cur) auto

lemma fallback_loop_acc:
  "fallback_loop cs ps (chunks, cur) =
     (chunks @ fst (fallback_loop cs ps ([], cur)), snd (fallback_loop cs ps ([], cur)))"
proof (induction ps arbitrary: chunks cur)
  case Nil
  show ?case by simp
next
  case (Cons para ps)
  show ?case
    using Cons.IH[of chunks "cur @ para @ sep"]
          Cons.IH[of "chunks @ [cur]" "para @ sep"]
          Cons.IH[of "[cur]" "para @ sep"]
    by (simp add: prod_eq_iff)
qed

lemma fallback_loop_concat:
  "concat (fst (fallback_loop cs ps (chunks, cur))) @ snd (fallback_loop cs ps (chunks, cur)) =
     concat chunks @ cur @ concat (map (\<lambda>para. para @ sep) ps)"
  by (induction ps arbitrary: chunks cur) auto

lemma resplit_append: "resplit cs final chunk = final @ resplit cs [] chunk"
proof -
  obtain f c where fc: "resplit_loop cs (split_paragraphs chunk) ([], []) = (f, c)"
    by (cases "resplit_loop cs (split_paragraphs chunk) ([], [])")
  with resplit_loop_acc[of cs "split_paragraphs chunk" final "[]"]
  have "resplit_loop cs (split_paragraphs chunk) (final, []) = (final @ f, c)"
    by simp
  with fc show ?thesis
    by (simp add: resplit_def)
qed

lemma foldl_resplit:
  "foldl (resplit cs) final chunks = final @ concat (map (resplit cs []) chunks)"
proof (induction chunks arbitrary: final)
  case Nil
  show ?case by simp
next
  case (Cons chunk chunks)
  have "foldl (resplit cs) final (chunk # chunks) = foldl (resplit cs) (resplit cs final chunk) chunks"
    by simp
  also have "\<dots> = resplit cs final chunk @ concat (map (resplit cs []) chunks)"
    by (rule Cons.IH)
  also have "resplit cs final chunk = final @ resplit cs [] chunk"
    by (rule resplit_append)
  finally show ?case by simp
qed


lemma concat_resplit:
  "concat (resplit cs [] chunk) = (if oversized cs chunk then chunk @ sep else chunk)"
proof (cases "oversized cs chunk")
  case False
  then show ?thesis by (simp add: resplit_def oversized_def)
next
  case True
  obtain f c where fc: "resplit_loop cs (split_paragraphs chunk) ([], []) = (f, c)"
    by (cases "resplit_loop cs (split_paragraphs chunk) ([], [])")
  from resplit_loop_concat[of cs "split_paragraphs chunk" "[]" "[]"] fc
  have "concat f @ c = chunk @ sep"
    by (simp add: concat_split_paragraphs)
  with True fc show ?thesis
    by (auto simp: resplit_def oversized_def)
qed

lemma concat_fallback_chunks: "concat (fallback_chunks cs text) = text @ sep"
proof -
  obtain f c where fc: "fallback_loop cs (split_paragraphs text) ([], []) = (f, c)"
    by (cases "fallback_loop cs (split_paragraphs text) ([], [])")
  from fallback_loop_concat[of cs "split_paragraphs text" "[]" "[]"] fc
  have "concat f @ c = text @ sep"
    by (simp add: concat_split_paragraphs)
  with fc show ?thesis
    by (auto simp: fallback_chunks_def)
qed


lemma section_chunks_Cons:
  "section_chunks text (a # b # bs) = slice text a b # section_chunks text (b # bs)"
proof -
  have "[0..<length (a # b # bs) - 1] = 0 # map Suc [0..<length (b # bs) - 1]"
    by (simp add: upt_conv_Cons map_Suc_upt del: upt_Suc)
  then show ?thesis
    by (simp add: section_chunks_def del: upt_Suc)
qed

lemma section_chunks_single: "section_chunks text [b] = [drop b text]"
  by (simp add: section_chunks_def)

lemma section_chunks_spans: "bs \<noteq> [] \<Longrightarrow> section_chunks text bs = spans text bs"
  by (induction "text" bs rule: spans.induct)
     (simp_all add: section_chunks_Cons section_chunks_single)

lemma slice_drop: "a \<le> b \<Longrightarrow> slice text a b @ drop b text = drop a text"
proof -
  assume "a \<le> b"
  then have "drop b text = drop (b - a) (drop a text)" by simp
  then show ?thesis by (simp add: slice_def del: drop_drop)
qed

lemma concat_spans: "sorted (b # bs) \<Longrightarrow> concat (spans text (b # bs)) = drop b text"
proof (induction bs arbitrary: b)
  case Nil
  show ?case by simp
next
  case (Cons c bs)
  then have "concat (spans text (c # bs)) = drop c text" and "b \<le> c" by simp_all
  then show ?case by (simp add: slice_drop)
qed

lemma concat_section_chunks:
  "concat (section_chunks text (detect_section_boundaries text)) = text"
proof -
  let ?bs = "detect_section_boundaries text"
  obtain b bs where bs: "?bs = b # bs"
    using boundaries_nonempty[of "text"] by (cases ?bs) auto
  with boundaries_hd[of "text"] have b: "b = 0" by simp
  have "sorted ?bs" using boundaries_strict strict_sorted_iff by blast
  with bs have "concat (spans text ?bs) = drop b text"
    by (simp add: concat_spans del: spans.simps)
  with b bs section_chunks_spans[of ?bs "text"] show ?thesis by simp
qed

lemma subseq_concat_map:
  "(\<And>x. subseq x (f x)) \<Longrightarrow> subseq (concat xs) (concat (map f xs))"
  by (induction xs) (auto intro: list_emb_append_mono)

lemma concat_concat_map: "concat (concat (map f xs)) = concat (map (\<lambda>x. concat (f x)) xs)"
  by (induction xs) auto

lemma create_semantic_chunks_boundary:
  "1 < length (detect_section_boundaries t) \<Longrightarrow> length (detect_section_boundaries t) < 30 \<Longrightarrow>
   create_semantic_chunks self t =
     concat (map (resplit (chunk_size self) []) (section_chunks t (detect_section_boundaries t)))"
  by (simp add: create_semantic_chunks_def foldl_resplit)

lemma create_semantic_chunks_fallback:
  "\<not> (1 < length (detect_section_boundaries t) \<and> length (detect_section_boundaries t) < 30) \<Longrightarrow>
   create_semantic_chunks self t = fallback_chunks (chunk_size self) t"
  by (auto simp add: create_semantic_chunks_def)

text \<open>
  Claim C3. For every text the chunks come in source order and cover every character of the
  text: the sections between the boundaries concatenate to the text; on the boundary path
  the chunks concatenate to the sections, each re-split section followed by one separator;
  on the fallback path they concatenate to the text followed by one separator. So the text
  is embedded, in order, in the concatenation of the chunks on both paths.
\<close>

theorem create_semantic_chunks_covers_text:
  "concat (section_chunks text (detect_section_boundaries text)) = text
   \<and> concat (create_semantic_chunks self text) =
       (if 1 < length (detect_section_boundaries text) \<and> length (detect_section_boundaries text) < 30
        then concat (map (\<lambda>section. if oversized (chunk_size self) section then section @ sep else section)
                         (section_chunks text (detect_section_boundaries text)))
        else text @ sep)
   \<and> subseq text (concat (create_semantic_chunks self text))"
proof -
  let ?bs = "detect_section_boundaries text"
  let ?f = "\<lambda>section. if oversized (chunk_size self) section then section @ sep else section"
  have cover: "concat (section_chunks text ?bs) = text"
    by (rule concat_section_chunks)
  have eq: "concat (create_semantic_chunks self text) =
       (if 1 < length ?bs \<and> length ?bs < 30
        then concat (map ?f (section_chunks text ?bs)) else text @ sep)"
  proof (cases "1 < length ?bs \<and> length ?bs < 30")
    case True
    then have "create_semantic_chunks self text =
        concat (map (resplit (chunk_size self) []) (section_chunks text ?bs))"
      by (simp add: create_semantic_chunks_boundary)
    then have "concat (create_semantic_chunks self text) =
        concat (map (\<lambda>section. concat (resplit (chunk_size self) [] section)) (section_chunks text ?bs))"
      by (simp add: concat_concat_map)
    with True show ?thesis by (simp add: concat_resplit)
  next
    case False
    then have "create_semantic_chunks self text = fallback_chunks (chunk_size self) text"
      by (rule create_semantic_chunks_fallback)
    with False show ?thesis
      by (auto simp: concat_fallback_chunks)
  qed
  have "subseq (concat (section_chunks text ?bs)) (concat (map ?f (section_chunks text ?bs)))"
    by (rule subseq_concat_map) (simp add: prefix_imp_subseq)
  with cover have "subseq text (concat (map ?f (section_chunks text ?bs)))" by simp
  moreover have "subseq text (text @ sep)" by (simp add: prefix_imp_subseq)
  ultimately have "subseq text (concat (create_semantic_chunks self text))"
    using eq by (simp split: if_splits)
  with cover eq show ?thesis by blast
qed

lemma scan_strict:
  "leftovers r [] = [] \<Longrightarrow> p \<in> set (scan r pos s) \<Longrightarrow> p < pos + length s"
proof (induction r pos s arbitrary: p rule: scan.induct)
  case (1 r pos s)
  note none = "1.prems"(1)
  from "1.prems"(2) have mem: "p \<in> set (case leftovers r s of
        [] \<Rightarrow> (case s of [] \<Rightarrow> [] | _ # s' \<Rightarrow> scan r (Suc pos) s')
      | rest # _ \<Rightarrow>
          pos # (if length rest < length s then scan r (pos + (length s - length rest)) rest
                 else (case s of [] \<Rightarrow> [] | _ # s' \<Rightarrow> scan r (Suc pos) s')))"
    by (subst (asm) scan.simps)
  show ?case
  proof (cases s)
    case Nil
    with none mem show ?thesis by simp
  next
    case s: (Cons c s')
    show ?thesis
    proof (cases "leftovers r s")
      case Nil
      with s mem have "p \<in> set (scan r (Suc pos) s')" by simp
      from "1.IH"(1)[OF Nil s none this] s show ?thesis by simp
    next
      case (Cons rest rs)
      show ?thesis
      proof (cases "p = pos")
        case True
        with s show ?thesis by simp
      next
        case False
        show ?thesis
        proof (cases "length rest < length s")
          case True
          with Cons False mem have "p \<in> set (scan r (pos + (length s - length rest)) rest)"
            by simp
          from "1.IH"(2)[OF Cons True none this] True show ?thesis by arith
        next
          case nlt: False
          with Cons False s mem have "p \<in> set (scan r (Suc pos) s')" by simp
          from "1.IH"(3)[OF Cons nlt s none this] s show ?thesis by simp
        qed
      qed
    qed
  qed
qed

lemma patterns_consume: "p \<in> set patterns \<Longrightarrow> leftovers p [] = []"
  by (auto simp: patterns_def seqs_def chr_def)

lemma boundaries_inside:
  "b \<in> set (detect_section_boundaries t) \<Longrightarrow> b \<noteq> 0 \<Longrightarrow> b < length t"
  by (auto simp: boundaries_set finditer_starts_def dest: scan_strict [OF patterns_consume])

lemma boundaries_nth_less:
  "Suc i < length (detect_section_boundaries t) \<Longrightarrow>
   detect_section_boundaries t ! i < detect_section_boundaries t ! Suc i"
  using boundaries_strict[of t] by (simp add: sorted_wrt_nth_less)

lemma boundaries_nth_inside:
  assumes "Suc i < length (detect_section_boundaries t)"
  shows "detect_section_boundaries t ! Suc i < length t"
proof -
  from assms have "detect_section_boundaries t ! i < detect_section_boundaries t ! Suc i"
    by (rule boundaries_nth_less)
  then have "detect_section_boundaries t ! Suc i \<noteq> 0" by simp
  moreover from assms have "detect_section_boundaries t ! Suc i \<in> set (detect_section_boundaries t)"
    by simp
  ultimately show ?thesis by (rule boundaries_inside[rotated])
qed

lemma section_chunks_length: "length (section_chunks t bs) = Suc (length bs - 1)"
  by (simp add: section_chunks_def)

lemma section_chunks_nth:
  "i < length bs - 1 \<Longrightarrow> section_chunks t bs ! i = slice t (bs ! i) (bs ! (i + 1))"
  by (simp add: section_chunks_def nth_append)

lemma section_chunks_last: "section_chunks t bs ! (length bs - 1) = drop (last bs) t"
  by (simp add: section_chunks_def nth_append)

text \<open>
  Claim C5. The boundary path is taken exactly when the number of boundaries is greater
  than 1 and less than 30. Then the chunks are the sections, re-split where oversized, there
  is one section for each boundary, section \<open>i\<close> is the slice of the text between boundary
  \<open>i\<close> and boundary \<open>i + 1\<close>, these offsets increase strictly and lie inside the text, and the
  last section runs from the last boundary to the end of the text. Otherwise the number of
  boundaries is 1 or at least 30, and the chunks are those of the fallback packing of the
  whole text.
\<close>

theorem create_semantic_chunks_path:
  "(if 1 < length (detect_section_boundaries text) \<and> length (detect_section_boundaries text) < 30
    then create_semantic_chunks self text =
           foldl (resplit (chunk_size self)) [] (section_chunks text (detect_section_boundaries text))
         \<and> length (section_chunks text (detect_section_boundaries text)) =
             length (detect_section_boundaries text)
         \<and> (\<forall>i < length (detect_section_boundaries text) - 1.
               section_chunks text (detect_section_boundaries text) ! i =
                 slice text (detect_section_boundaries text ! i) (detect_section_boundaries text ! (i + 1))
               \<and> detect_section_boundaries text ! i < detect_section_boundaries text ! (i + 1)
               \<and> detect_section_boundaries text ! (i + 1) < length text)
         \<and> section_chunks text (detect_section_boundaries text)
               ! (length (detect_section_boundaries text) - 1) =
             drop (last (detect_section_boundaries text)) text
    else create_semantic_chunks self text = fallback_chunks (chunk_size self) text
         \<and> (length (detect_section_boundaries text) = 1
              \<or> 30 \<le> length (detect_section_boundaries text)))"
proof (cases "1 < length (detect_section_boundaries text) \<and> length (detect_section_boundaries text) < 30")
  case True
  let ?bs = "detect_section_boundaries text"
  from True have "create_semantic_chunks self text =
      foldl (resplit (chunk_size self)) [] (section_chunks text ?bs)"
    by (simp add: create_semantic_chunks_def)
  moreover from True have "length (section_chunks text ?bs) = length ?bs"
    by (auto simp: section_chunks_length)
  moreover have "\<forall>i < length ?bs - 1.
      section_chunks text ?bs ! i = slice text (?bs ! i) (?bs ! (i + 1))
      \<and> ?bs ! i < ?bs ! (i + 1) \<and> ?bs ! (i + 1) < length text"
    by (simp add: section_chunks_nth boundaries_nth_less boundaries_nth_inside)
  moreover have "section_chunks text ?bs ! (length ?bs - 1) = drop (last ?bs) text"
    by (rule section_chunks_last)
  ultimately show ?thesis using True by simp
next
  case False
  let ?bs = "detect_section_boundaries text"
  from False have "create_semantic_chunks self text = fallback_chunks (chunk_size self) text"
    by (rule create_semantic_chunks_fallback)
  moreover have "length ?bs \<noteq> 0" using boundaries_nonempty[of "text"] by simp
  with False have "length ?bs = 1 \<or> 30 \<le> length ?bs" by arith
  ultimately show ?thesis using False by auto
qed


theorem create_semantic_chunks_path_witness:
  "detect_section_boundaries ''aaaa\<newline>\<newline>bbb\<newline>\<newline>cccccc\<newline>1 Ab'' = [0, 17]
   \<and> create_semantic_chunks (PDFSummarizer example_llm_api 10 200 4)
         ''aaaa\<newline>\<newline>bbb\<newline>\<newline>cccccc\<newline>1 Ab''
       = foldl (resplit 10) [] [''aaaa\<newline>\<newline>bbb\<newline>\<newline>cccccc'', ''\<newline>1 Ab'']
   \<and> section_chunks ''aaaa\<newline>\<newline>bbb\<newline>\<newline>cccccc\<newline>1 Ab'' [0, 17] ! 0
       = slice ''aaaa\<newline>\<newline>bbb\<newline>\<newline>cccccc\<newline>1 Ab'' 0 17"
proof -
  let ?t = "''aaaa\<newline>\<newline>bbb\<newline>\<newline>cccccc\<newline>1 Ab''"
  have bs: "detect_section_boundaries ?t = [0, 17]"
    by code_simp
  have sections: "section_chunks ?t [0, 17] = [''aaaa\<newline>\<newline>bbb\<newline>\<newline>cccccc'', ''\<newline>1 Ab'']"
    by code_simp
  from create_semantic_chunks_path [of ?t "PDFSummarizer example_llm_api 10 200 4"]
  show ?thesis
    unfolding bs sections by (simp add: PDFSummarizer_def slice_def)
qed

lemma within_target_paragraph: "para \<in> set paragraphs \<Longrightarrow> within_target cs paragraphs (para @ sep)"
  by (auto simp: within_target_def sep_def)

lemma within_target_joined:
  "int (length cur) + int (length para) < cs \<Longrightarrow> within_target cs paragraphs (cur @ para @ sep)"
  by (simp add: within_target_def sep_def)

lemma resplit_loop_within:
  assumes "set ps \<subseteq> set paragraphs"
    and "\<forall>sub \<in> set final. within_target cs paragraphs sub"
    and "cur = [] \<or> within_target cs paragraphs cur"
  shows "(\<forall>sub \<in> set (fst (resplit_loop cs ps (final, cur))). within_target cs paragraphs sub)
       \<and> (snd (resplit_loop cs ps (final, cur)) = []
            \<or> within_target cs paragraphs (snd (resplit_loop cs ps (final, cur))))"
  using assms
proof (induction ps arbitrary: final cur)
  case Nil
  then show ?case by simp
next
  case (Cons para ps)
  from Cons.prems(1) have sub: "set ps \<subseteq> set paragraphs" and mem: "para \<in> set paragraphs"
    by simp_all
  show ?case
  proof (cases "int (length cur) + int (length para) < cs")
    case True
    have "within_target cs paragraphs (cur @ para @ sep)"
      using True by (rule within_target_joined)
    with Cons.IH[OF sub Cons.prems(2), of "cur @ para @ sep"] True show ?thesis by simp
  next
    case False
    have new: "within_target cs paragraphs (para @ sep)"
      using mem by (rule within_target_paragraph)
    have "\<forall>sub \<in> set (if cur \<noteq> [] then final @ [cur] else final). within_target cs paragraphs sub"
      using Cons.prems(2,3) by auto
    from Cons.IH[OF sub this, of "para @ sep"] new False show ?thesis by simp
  qed
qed

lemma resplit_loop_last:
  "ps \<noteq> [] \<Longrightarrow> suffix (last ps @ sep) (snd (resplit_loop cs ps (final, cur)))"
proof (induction ps arbitrary: final cur)
  case Nil
  then show ?case by simp
next
  case (Cons para ps)
  show ?case
  proof (cases "ps = []")
    case True
    then show ?thesis by (simp add: suffix_def)
  next
    case False
    with Cons.IH show ?thesis by simp
  qed
qed

lemma resplit_oversized:
  assumes "oversized cs chunk"
  shows "(\<forall>sub \<in> set (resplit cs [] chunk). within_target cs (split_paragraphs chunk) sub)
       \<and> resplit cs [] chunk \<noteq> []
       \<and> suffix (last (split_paragraphs chunk) @ sep) (last (resplit cs [] chunk))"
proof -
  let ?ps = "split_paragraphs chunk"
  obtain f c where fc: "resplit_loop cs ?ps ([], []) = (f, c)"
    by (cases "resplit_loop cs ?ps ([], [])")
  from resplit_loop_within[of ?ps ?ps "[]" cs "[]"] fc
  have bound: "\<forall>sub \<in> set f. within_target cs ?ps sub" and cur: "c = [] \<or> within_target cs ?ps c"
    by simp_all
  from resplit_loop_last[OF split_paragraphs_nonempty, of chunk cs "[]" "[]"] fc
  have last: "suffix (last ?ps @ sep) c" by simp
  then have ne: "c \<noteq> []" by (auto simp: suffix_def sep_def)
  with assms fc have res: "resplit cs [] chunk = f @ [c]"
    by (simp add: resplit_def)
  with bound cur ne last show ?thesis by auto
qed

text \<open>
  Claim C4, as amended. When the boundary path re-splits an oversized section, every
  resulting sub-chunk is one of the chunks returned and has length at most
  \<open>chunk_size + 1\<close>, unless it is a single paragraph of length at least \<open>chunk_size\<close>
  followed by the separator; and the last sub-chunk, the one that ends with the last
  paragraph of the section, is always emitted.
\<close>

theorem resplit_sub_chunks_within_target:
  assumes "1 < length (detect_section_boundaries text)"
    and "length (detect_section_boundaries text) < 30"
    and "section \<in> set (section_chunks text (detect_section_boundaries text))"
    and "oversized (chunk_size self) section"
  shows "set (resplit (chunk_size self) [] section) \<subseteq> set (create_semantic_chunks self text)
       \<and> (\<forall>sub \<in> set (resplit (chunk_size self) [] section).
             within_target (chunk_size self) (split_paragraphs section) sub)
       \<and> resplit (chunk_size self) [] section \<noteq> []
       \<and> suffix (last (split_paragraphs section) @ sep) (last (resplit (chunk_size self) [] section))"
proof -
  from assms(1,2) have "create_semantic_chunks self text =
      concat (map (resplit (chunk_size self) []) (section_chunks text (detect_section_boundaries text)))"
    by (rule create_semantic_chunks_boundary)
  with assms(3) have "set (resplit (chunk_size self) [] section) \<subseteq> set (create_semantic_chunks self text)"
    by auto
  with resplit_oversized[OF assms(4)] show ?thesis by blast
qed

theorem resplit_sub_chunks_within_target_witness:
  "create_semantic_chunks (PDFSummarizer example_llm_api 10 200 4)
       ''aaaa\<newline>\<newline>bbb\<newline>\<newline>cccccc\<newline>1 Ab''
     = [''aaaa\<newline>\<newline>bbb\<newline>\<newline>'', ''cccccc\<newline>\<newline>'', ''\<newline>1 Ab'']
   \<and> resplit 10 [] ''aaaa\<newline>\<newline>bbb\<newline>\<newline>cccccc''
     = [''aaaa\<newline>\<newline>bbb\<newline>\<newline>'', ''cccccc\<newline>\<newline>'']
   \<and> within_target 10 [''aaaa'', ''bbb'', ''cccccc''] ''aaaa\<newline>\<newline>bbb\<newline>\<newline>''
   \<and> within_target 10 [''aaaa'', ''bbb'', ''cccccc''] ''cccccc\<newline>\<newline>''
   \<and> suffix (''cccccc'' @ sep) ''cccccc\<newline>\<newline>''"
proof -
  let ?t = "''aaaa\<newline>\<newline>bbb\<newline>\<newline>cccccc\<newline>1 Ab''"
  let ?s = "''aaaa\<newline>\<newline>bbb\<newline>\<newline>cccccc''"
  let ?self = "PDFSummarizer example_llm_api 10 200 4"
  have cs: "chunk_size ?self = 10" by (simp add: PDFSummarizer_def)
  have bs: "detect_section_boundaries ?t = [0, 17]"
    by code_simp
  have sections: "section_chunks ?t [0, 17] = [?s, ''\<newline>1 Ab'']"
    by code_simp
  have big: "oversized (chunk_size ?self) ?s"
    unfolding cs by code_simp
  have paras: "split_paragraphs ?s = [''aaaa'', ''bbb'', ''cccccc'']"
    by code_simp
  have res: "resplit 10 [] ?s = [''aaaa\<newline>\<newline>bbb\<newline>\<newline>'', ''cccccc\<newline>\<newline>'']"
    by code_simp
  have all: "create_semantic_chunks ?self ?t
     = [''aaaa\<newline>\<newline>bbb\<newline>\<newline>'', ''cccccc\<newline>\<newline>'', ''\<newline>1 Ab'']"
    by code_simp
  have "1 < length (detect_section_boundaries ?t)" "length (detect_section_boundaries ?t) < 30"
       "?s \<in> set (section_chunks ?t (detect_section_boundaries ?t))"
    unfolding bs sections by simp_all
  from resplit_sub_chunks_within_target [OF this big]
  show ?thesis
    unfolding cs res paras using all by simp
qed

text \<open>
  Claim C4 as stated fails: with \<open>chunk_size = 10\<close> the section of 17 characters below is
  re-split, and its first sub-chunk packs the two paragraphs \<open>aaaa\<close> and \<open>bbb\<close>, neither
  longer than 10, into 11 characters.
\<close>

theorem resplit_sub_chunk_exceeds_target:
  "create_semantic_chunks (PDFSummarizer example_llm_api 10 200 4)
       ''aaaa\<newline>\<newline>bbb\<newline>\<newline>cccccc\<newline>1 Ab''
     = [''aaaa\<newline>\<newline>bbb\<newline>\<newline>'', ''cccccc\<newline>\<newline>'', ''\<newline>1 Ab'']
   \<and> detect_section_boundaries ''aaaa\<newline>\<newline>bbb\<newline>\<newline>cccccc\<newline>1 Ab'' = [0, 17]
   \<and> oversized 10 ''aaaa\<newline>\<newline>bbb\<newline>\<newline>cccccc''
   \<and> split_paragraphs ''aaaa\<newline>\<newline>bbb\<newline>\<newline>cccccc'' = [''aaaa'', ''bbb'', ''cccccc'']
   \<and> resplit 10 [] ''aaaa\<newline>\<newline>bbb\<newline>\<newline>cccccc''
     = [''aaaa'' @ sep @ ''bbb'' @ sep, ''cccccc'' @ sep]
   \<and> length (''aaaa'' @ sep @ ''bbb'' @ sep) = 11
   \<and> (10::int) < int (length (''aaaa'' @ sep @ ''bbb'' @ sep))"
  by code_simp

lemma resplit_loop_keeps: "set final \<subseteq> set (fst (resplit_loop cs ps (final, cur)))"
  by (subst resplit_loop_acc) simp

lemma fallback_loop_keeps: "set chunks \<subseteq> set (fst (fallback_loop cs ps (chunks, cur)))"
  by (subst fallback_loop_acc) simp

lemma resplit_loop_full:
  "cs \<le> int (length cur) \<Longrightarrow> cur \<noteq> [] \<Longrightarrow>
   cur \<in> set (fst (resplit_loop cs ps (final, cur))) \<or> snd (resplit_loop cs ps (final, cur)) = cur"
proof (cases ps)
  case Nil
  then show ?thesis by simp
next
  case (Cons para ps')
  assume "cs \<le> int (length cur)" and "cur \<noteq> []"
  with Cons resplit_loop_keeps[of "final @ [cur]" cs ps' "para @ sep"]
  show ?thesis by simp
qed

lemma fallback_loop_full:
  "cs \<le> int (length cur) \<Longrightarrow>
   cur \<in> set (fst (fallback_loop cs ps (chunks, cur))) \<or> snd (fallback_loop cs ps (chunks, cur)) = cur"
proof (cases ps)
  case Nil
  then show ?thesis by simp
next
  case (Cons para ps')
  assume "cs \<le> int (length cur)"
  with Cons fallback_loop_keeps[of "chunks @ [cur]" cs ps' "para @ sep"]
  show ?thesis by simp
qed

lemma resplit_loop_big_paragraph:
  "para \<in> set ps \<Longrightarrow> cs \<le> int (length para) \<Longrightarrow>
   para @ sep \<in> set (fst (resplit_loop cs ps (final, cur)))
   \<or> snd (resplit_loop cs ps (final, cur)) = para @ sep"
proof (induction ps arbitrary: final cur)
  case Nil
  then show ?case by simp
next
  case (Cons p ps)
  show ?case
  proof (cases "p = para")
    case True
    from Cons.prems(2) have full: "cs \<le> int (length (para @ sep))" and ne: "para @ sep \<noteq> []"
      by (simp_all add: sep_def)
    from Cons.prems(2) have "\<not> int (length cur) + int (length para) < cs" by simp
    with True resplit_loop_full[OF full ne] show ?thesis by simp
  next
    case False
    with Cons.prems have "para \<in> set ps" by simp
    from Cons.IH[OF this Cons.prems(2)] show ?thesis by simp
  qed
qed

lemma fallback_loop_big_paragraph:
  "para \<in> set ps \<Longrightarrow> cs \<le> int (length para) \<Longrightarrow>
   para @ sep \<in> set (fst (fallback_loop cs ps (chunks, cur)))
   \<or> snd (fallback_loop cs ps (chunks, cur)) = para @ sep"
proof (induction ps arbitrary: chunks cur)
  case Nil
  then show ?case by simp
next
  case (Cons p ps)
  show ?case
  proof (cases "p = para")
    case True
    from Cons.prems(2) have full: "cs \<le> int (length (para @ sep))"
      by (simp add: sep_def)
    from Cons.prems(2) have "\<not> int (length cur) + int (length para) < cs" by simp
    with True fallback_loop_full[OF full] show ?thesis by simp
  next
    case False
    with Cons.prems have "para \<in> set ps" by simp
    from Cons.IH[OF this Cons.prems(2)] show ?thesis by simp
  qed
qed

lemma resplit_big_paragraph:
  assumes "oversized cs chunk" and "para \<in> set (split_paragraphs chunk)" and "cs \<le> int (length para)"
  shows "para @ sep \<in> set (resplit cs [] chunk)"
proof -
  obtain f c where fc: "resplit_loop cs (split_paragraphs chunk) ([], []) = (f, c)"
    by (cases "resplit_loop cs (split_paragraphs chunk) ([], [])")
  from resplit_loop_big_paragraph[OF assms(2,3), of "[]" "[]"] fc
  have "para @ sep \<in> set f \<or> c = para @ sep" by simp
  moreover have "para @ sep \<noteq> []" by (simp add: sep_def)
  ultimately show ?thesis using assms(1) fc by (auto simp: resplit_def)
qed

lemma fallback_big_paragraph:
  assumes "para \<in> set (split_paragraphs t)" and "cs \<le> int (length para)"
  shows "para @ sep \<in> set (fallback_chunks cs t)"
proof -
  obtain f c where fc: "fallback_loop cs (split_paragraphs t) ([], []) = (f, c)"
    by (cases "fallback_loop cs (split_paragraphs t) ([], [])")
  from fallback_loop_big_paragraph[OF assms, of "[]" "[]"] fc
  have "para @ sep \<in> set f \<or> c = para @ sep" by simp
  moreover have "para @ sep \<noteq> []" by (simp add: sep_def)
  ultimately show ?thesis using fc by (auto simp: fallback_chunks_def)
qed

lemma resplit_loop_no_empty:
  "[] \<notin> set final \<Longrightarrow> [] \<notin> set (fst (resplit_loop cs ps (final, cur)))"
  by (induction ps arbitrary: final cur) auto

lemma resplit_no_empty: "chunk \<noteq> [] \<Longrightarrow> [] \<notin> set (resplit cs [] chunk)"
proof -
  assume ne: "chunk \<noteq> []"
  obtain f c where fc: "resplit_loop cs (split_paragraphs chunk) ([], []) = (f, c)"
    by (cases "resplit_loop cs (split_paragraphs chunk) ([], [])")
  from resplit_loop_no_empty[of "[]" cs "split_paragraphs chunk" "[]"] fc
  have "[] \<notin> set f" by simp
  with ne fc show ?thesis by (auto simp: resplit_def)
qed

lemma sections_no_empty:
  assumes "1 < length (detect_section_boundaries t)"
  shows "[] \<notin> set (section_chunks t (detect_section_boundaries t))"
proof
  let ?bs = "detect_section_boundaries t"
  assume "[] \<in> set (section_chunks t ?bs)"
  then obtain i where i: "i < length (section_chunks t ?bs)" and nth: "section_chunks t ?bs ! i = []"
    by (auto simp: in_set_conv_nth)
  from i have i_le: "i \<le> length ?bs - 1" by (simp add: section_chunks_length)
  show False
  proof (cases "i < length ?bs - 1")
    case True
    then have lt: "?bs ! i < ?bs ! Suc i" and inside: "?bs ! Suc i < length t"
      by (simp_all add: boundaries_nth_less boundaries_nth_inside)
    from True nth have "slice t (?bs ! i) (?bs ! Suc i) = []"
      by (simp add: section_chunks_nth)
    with lt inside show False by (simp add: slice_def)
  next
    case False
    with i_le have eq: "i = length ?bs - 1" by simp
    with nth section_chunks_last[of t ?bs] have "drop (last ?bs) t = []" by simp
    moreover from assms have "?bs \<noteq> []" and "length ?bs - 1 = Suc (length ?bs - 2)"
      by auto
    then have "last ?bs = ?bs ! Suc (length ?bs - 2)"
      by (simp add: last_conv_nth)
    moreover from assms have "?bs ! Suc (length ?bs - 2) < length t"
      by (intro boundaries_nth_inside) arith
    ultimately show False by simp
  qed
qed

lemma boundaries_of_empty: "detect_section_boundaries [] = [0]"
  by code_simp


text \<open>
  Claim C9, as amended. For the empty text and a positive \<open>chunk_size\<close> the outcome is the
  single chunk that holds the separator alone. On the boundary path no chunk is empty. A
  paragraph at least \<open>chunk_size\<close> long is emitted whole, followed by the separator, as a
  chunk of its own: on the fallback path for every paragraph of the text, on the boundary
  path for every paragraph of an oversized section, while a section that is not oversized
  is itself a chunk. The function is total, so no error is raised.
\<close>

theorem create_semantic_chunks_edge_cases:
  "(0 < chunk_size self \<longrightarrow> create_semantic_chunks self [] = [sep])
   \<and> (if 1 < length (detect_section_boundaries text) \<and> length (detect_section_boundaries text) < 30
      then [] \<notin> set (create_semantic_chunks self text)
           \<and> (\<forall>section \<in> set (section_chunks text (detect_section_boundaries text)).
                if oversized (chunk_size self) section
                then \<forall>para \<in> set (split_paragraphs section).
                       chunk_size self \<le> int (length para)
                       \<longrightarrow> para @ sep \<in> set (create_semantic_chunks self text)
                else section \<in> set (create_semantic_chunks self text))
      else \<forall>para \<in> set (split_paragraphs text).
             chunk_size self \<le> int (length para)
             \<longrightarrow> para @ sep \<in> set (create_semantic_chunks self text))"
proof -
  let ?bs = "detect_section_boundaries text"
  let ?cs = "chunk_size self"
  have empty: "0 < ?cs \<longrightarrow> create_semantic_chunks self [] = [sep]"
    by (simp add: create_semantic_chunks_def boundaries_of_empty fallback_chunks_def sep_def)
  have rest: "if 1 < length ?bs \<and> length ?bs < 30
      then [] \<notin> set (create_semantic_chunks self text)
           \<and> (\<forall>section \<in> set (section_chunks text ?bs).
                if oversized ?cs section
                then \<forall>para \<in> set (split_paragraphs section).
                       ?cs \<le> int (length para)
                       \<longrightarrow> para @ sep \<in> set (create_semantic_chunks self text)
                else section \<in> set (create_semantic_chunks self text))
      else \<forall>para \<in> set (split_paragraphs text).
             ?cs \<le> int (length para)
             \<longrightarrow> para @ sep \<in> set (create_semantic_chunks self text)"
  proof (cases "1 < length ?bs \<and> length ?bs < 30")
    case True
    then have eq: "create_semantic_chunks self text =
        concat (map (resplit ?cs []) (section_chunks text ?bs))"
      by (simp add: create_semantic_chunks_boundary)
    from True have sections: "[] \<notin> set (section_chunks text ?bs)"
      by (simp add: sections_no_empty)
    have "[] \<notin> set (create_semantic_chunks self text)"
    proof
      assume "[] \<in> set (create_semantic_chunks self text)"
      with eq obtain sect where "sect \<in> set (section_chunks text ?bs)"
        and "[] \<in> set (resplit ?cs [] sect)" by auto
      with sections resplit_no_empty[of sect ?cs] show False by auto
    qed
    moreover have "\<forall>section \<in> set (section_chunks text ?bs).
                if oversized ?cs section
                then \<forall>para \<in> set (split_paragraphs section).
                       ?cs \<le> int (length para)
                       \<longrightarrow> para @ sep \<in> set (create_semantic_chunks self text)
                else section \<in> set (create_semantic_chunks self text)"
    proof
      fix sect
      assume mem: "sect \<in> set (section_chunks text ?bs)"
      then have sub: "set (resplit ?cs [] sect) \<subseteq> set (create_semantic_chunks self text)"
        using eq by auto
      show "if oversized ?cs sect
                then \<forall>para \<in> set (split_paragraphs sect).
                       ?cs \<le> int (length para)
                       \<longrightarrow> para @ sep \<in> set (create_semantic_chunks self text)
                else sect \<in> set (create_semantic_chunks self text)"
      proof (cases "oversized ?cs sect")
        case big: True
        then have "\<forall>para \<in> set (split_paragraphs sect).
                       ?cs \<le> int (length para) \<longrightarrow> para @ sep \<in> set (resplit ?cs [] sect)"
          by (simp add: resplit_big_paragraph)
        with sub big show ?thesis by auto
      next
        case small: False
        then have "resplit ?cs [] sect = [sect]" by (simp add: resplit_def)
        with sub small show ?thesis by simp
      qed
    qed
    ultimately show ?thesis using True by simp
  next
    case False
    then have "create_semantic_chunks self text = fallback_chunks ?cs text"
      by (rule create_semantic_chunks_fallback)
    then have "\<forall>para \<in> set (split_paragraphs text).
             ?cs \<le> int (length para)
             \<longrightarrow> para @ sep \<in> set (create_semantic_chunks self text)"
      by (simp add: fallback_big_paragraph)
    with False show ?thesis by auto
  qed
  from empty rest show ?thesis by (rule conjI)
qed

theorem create_semantic_chunks_edge_cases_witness:
  "create_semantic_chunks (PDFSummarizer example_llm_api 3 200 4) [] = [sep]
   \<and> detect_section_boundaries ''abcdef\<newline>\<newline>gh'' = [0]
   \<and> split_paragraphs ''abcdef\<newline>\<newline>gh'' = [''abcdef'', ''gh'']
   \<and> ''abcdef'' @ sep \<in> set (create_semantic_chunks (PDFSummarizer example_llm_api 3 200 4)
                                 ''abcdef\<newline>\<newline>gh'')"
proof -
  let ?self = "PDFSummarizer example_llm_api 3 200 4"
  let ?t = "''abcdef\<newline>\<newline>gh''"
  have cs: "chunk_size ?self = 3" by (simp add: PDFSummarizer_def)
  have bs: "detect_section_boundaries ?t = [0]"
    by code_simp
  have paras: "split_paragraphs ?t = [''abcdef'', ''gh'']"
    by code_simp
  from create_semantic_chunks_edge_cases [of ?self ?t]
  show ?thesis
    unfolding bs paras cs by simp
qed

text \<open>
  Claim C9 as stated fails: for the empty text and the default \<open>chunk_size\<close> of 2000 the
  outcome is one chunk of two newline characters, not an empty chunk.
\<close>

theorem create_semantic_chunks_empty_text:
  "create_semantic_chunks (PDFSummarizer example_llm_api 2000 200 4) [] = [[nl, nl]]
   \<and> length [nl, nl] = 2"
  by code_simp

text \<open>
  The fallback loop appends the current chunk without the test \<open>if current_chunk\<close> that the
  boundary path makes. When the first paragraph is at least \<open>chunk_size\<close> long, the first
  chunk of a text that is not empty is the empty string.
\<close>

lemma fallback_emits_empty_chunk:
  "create_semantic_chunks (PDFSummarizer example_llm_api 3 200 4) ''abc''
     = [[], ''abc\<newline>\<newline>'']"
  by code_simp

section \<open>Properties of the dispatcher\<close>

lemma mset_without_nth:
  "k < length xs \<Longrightarrow> add_mset (xs ! k) (mset (take k xs @ drop (Suc k) xs)) = mset xs"
proof -
  assume "k < length xs"
  then have "xs = take k xs @ xs ! k # drop (Suc k) xs"
    by (rule id_take_nth_drop)
  then have "mset xs = mset (take k xs @ xs ! k # drop (Suc k) xs)"
    by simp
  then show ?thesis by simp
qed

text \<open>Whatever the scheduler picks, every future completes exactly once.\<close>

lemma mset_as_completed: "mset (as_completed picks futures) = mset futures"
proof (induction picks futures rule: as_completed.induct)
  case (1 picks)
  show ?case by simp
next
  case (2 f pending)
  then show ?case by simp
next
  case (3 p picks f pending)
  let ?k = "p mod length (f # pending)"
  have k: "?k < length (f # pending)" by simp
  from "3.IH"[OF refl]
  have "mset (as_completed picks (take ?k (f # pending) @ drop (Suc ?k) (f # pending)))
      = mset (take ?k (f # pending) @ drop (Suc ?k) (f # pending))" .
  with mset_without_nth[OF k] show ?case
    by (simp add: Let_def del: mset_append)
qed

text \<open>Every order of completion is the outcome of some picks.\<close>

lemma as_completed_any_order:
  "mset completed = mset futures \<Longrightarrow> \<exists>picks. as_completed picks futures = completed"
proof (induction completed arbitrary: futures)
  case Nil
  then show ?case by simp
next
  case (Cons c completed)
  from Cons.prems have "c \<in> set futures"
    by (metis list.set_intros(1) set_mset_mset)
  then obtain k where k: "k < length futures" and c: "futures ! k = c"
    by (auto simp: in_set_conv_nth)
  let ?rest = "take k futures @ drop (Suc k) futures"
  from mset_without_nth[OF k] c have "add_mset c (mset ?rest) = mset futures"
    by simp
  with Cons.prems have "add_mset c (mset completed) = add_mset c (mset ?rest)"
    by simp
  then have "mset completed = mset ?rest"
    by simp
  from Cons.IH[OF this] obtain picks where picks: "as_completed picks ?rest = completed"
    by blast
  from k obtain f pending where fp: "futures = f # pending"
    by (cases futures) auto
  from k have "k mod length futures = k" by simp
  with fp picks c have "as_completed (k # picks) futures = c # completed"
    by (simp add: Let_def)
  then show ?case by blast
qed

lemma collect_captured:
  "\<forall>future \<in> set futures. captured (snd future) \<Longrightarrow>
   collect futures chunk_summaries =
     Inr (chunk_summaries @ map (\<lambda>future. (fst future, entry (snd future))) futures)"
proof (induction futures chunk_summaries rule: collect.induct)
  case (1 chunk_summaries)
  show ?case by simp
next
  case (2 chunk_idx summary futures chunk_summaries)
  then show ?case by simp
next
  case (3 chunk_idx e futures chunk_summaries)
  then show ?case by simp
next
  case (4 chunk_idx e futures chunk_summaries)
  then show ?case by simp
qed

lemma filter_eq_upt: "filter (\<lambda>i. j = i) [0..<n] = (if j < n then [j] else [])"
  by (induction n) auto

text \<open>Sorting by index puts the recorded pairs back into the order of the chunks.\<close>

lemma sort_by_index:
  assumes "mset chunk_summaries = mset (map (\<lambda>i. (i, h i)) [0..<n])"
  shows "sort_key fst chunk_summaries = map (\<lambda>i. (i, h i)) [0..<n]"
proof (rule properties_for_sort_key)
  show "mset (map (\<lambda>i. (i, h i)) [0..<n]) = mset chunk_summaries"
    using assms by simp
  show "sorted (map fst (map (\<lambda>i. (i, h i)) [0..<n]))"
    by (simp add: comp_def)
  fix k
  assume "k \<in> set (map (\<lambda>i. (i, h i)) [0..<n])"
  then obtain j where j: "j < n" and k: "k = (j, h j)" by auto
  have ys: "filter (\<lambda>x. fst k = fst x) (map (\<lambda>i. (i, h i)) [0..<n]) = [k]"
    using j k by (simp add: filter_map comp_def filter_eq_upt)
  have "mset (filter (\<lambda>x. fst k = fst x) chunk_summaries)
      = filter_mset (\<lambda>x. fst k = fst x) (mset chunk_summaries)"
    by (rule mset_filter)
  also have "\<dots> = filter_mset (\<lambda>x. fst k = fst x) (mset (map (\<lambda>i. (i, h i)) [0..<n]))"
    using assms by simp
  also have "\<dots> = mset (filter (\<lambda>x. fst k = fst x) (map (\<lambda>i. (i, h i)) [0..<n]))"
    by (rule mset_filter[symmetric])
  also have "\<dots> = {#k#}"
    unfolding ys by simp
  finally have "filter (\<lambda>x. fst k = fst x) chunk_summaries = [k]"
    by (simp only: mset_single_iff)
  with ys show "filter (\<lambda>x. fst k = fst x) (map (\<lambda>i. (i, h i)) [0..<n])
      = filter (\<lambda>x. fst k = fst x) chunk_summaries"
    by simp
qed

lemma futures_by_index:
  "map (\<lambda>(i, chunk). (i, g chunk)) (zip [0..<length chunks] chunks)
     = map (\<lambda>i. (i, g (chunks ! i))) [0..<length chunks]"
  by (rule nth_equalityI) simp_all

text \<open>
  The map stage when every outcome is captured: whatever the order of completion, the
  summaries, once sorted by index, are the entries of the chunks in the order of the chunks.
\<close>

lemma map_stage_captured:
  assumes "\<forall>chunk \<in> set chunks. captured (summarize_chunk self chunk md is_financial)"
  shows "\<exists>chunk_summaries.
           map_stage self picks chunks md is_financial = Inr chunk_summaries
           \<and> map snd (sort_key fst chunk_summaries)
               = map (\<lambda>chunk. entry (summarize_chunk self chunk md is_financial)) chunks"
proof -
  let ?g = "\<lambda>chunk. summarize_chunk self chunk md is_financial"
  let ?futures = "map (\<lambda>(i, chunk). (i, ?g chunk)) (zip [0..<length chunks] chunks)"
  let ?done = "as_completed picks ?futures"
  let ?cs = "map (\<lambda>future. (fst future, entry (snd future))) ?done"
  have futures: "?futures = map (\<lambda>i. (i, ?g (chunks ! i))) [0..<length chunks]"
    by (rule futures_by_index)
  have "set ?done = set ?futures"
    using mset_as_completed[of picks ?futures] by (rule mset_eq_setD)
  with assms have "\<forall>future \<in> set ?done. captured (snd future)"
    unfolding futures by auto
  then have "collect ?done [] = Inr ([] @ ?cs)"
    by (rule collect_captured)
  then have stage: "map_stage self picks chunks md is_financial = Inr ?cs"
    by (simp add: map_stage_def)
  have "mset ?cs = mset (map (\<lambda>future. (fst future, entry (snd future))) ?futures)"
    using mset_as_completed[of picks ?futures] by (simp only: mset_map)
  also have "\<dots> = mset (map (\<lambda>i. (i, entry (?g (chunks ! i)))) [0..<length chunks])"
    unfolding futures by (simp add: comp_def)
  finally have "sort_key fst ?cs = map (\<lambda>i. (i, entry (?g (chunks ! i)))) [0..<length chunks]"
    by (rule sort_by_index)
  then have "map snd (sort_key fst ?cs) = map (\<lambda>i. entry (?g (chunks ! i))) [0..<length chunks]"
    by (simp add: comp_def)
  also have "\<dots> = map (\<lambda>chunk. entry (?g chunk)) chunks"
    by (rule nth_equalityI) simp_all
  finally show ?thesis using stage by blast
qed

section \<open>Properties of the pipeline\<close>


text \<open>
  The pipeline when every outcome of the map stage is captured and the pool starts: the
  reducer is called on the entries of the chunks in the order of the chunks, and its
  outcome decides between the exception and the record.
\<close>

lemma summarize_pdf_captured:
  assumes "0 < max_workers self"
    and "\<forall>chunk \<in> set (create_semantic_chunks self text).
           captured (summarize_chunk self chunk md is_financial)"
  shows "summarize_pdf self picks text md is_financial =
     (case summarize_summaries self
             (map (\<lambda>chunk. entry (summarize_chunk self chunk md is_financial))
                  (create_semantic_chunks self text)) md is_financial of
        Inl e \<Rightarrow> Inl e
      | Inr final \<Rightarrow>
          Inr \<lparr>metadata = md, chunk_count = length (create_semantic_chunks self text),
               section_summaries =
                 map (\<lambda>chunk. entry (summarize_chunk self chunk md is_financial))
                     (create_semantic_chunks self text),
               final_summary = final\<rparr>)"
proof -
  from map_stage_captured[OF assms(2), of picks]
  obtain chunk_summaries where
    stage: "map_stage self picks (create_semantic_chunks self text) md is_financial
              = Inr chunk_summaries"
    and sorted: "map snd (sort_key fst chunk_summaries)
              = map (\<lambda>chunk. entry (summarize_chunk self chunk md is_financial))
                    (create_semantic_chunks self text)"
    by blast
  from assms(1) stage sorted show ?thesis
    by (simp add: summarize_pdf_def Let_def)
qed

text \<open>
  Claim C1. When the pool starts and every chunk summarization completes with a summary
  or a captured error, then for every order of completion: if the final combining call
  returns, \<open>summarize_pdf\<close> returns a record whose \<open>chunk_count\<close> is the number of chunks of
  \<open>create_semantic_chunks\<close>, whose \<open>section_summaries\<close> has \<open>chunk_count\<close> entries, and whose
  entry \<open>i\<close> is the summary or the error placeholder of chunk \<open>i\<close>; if that call raises,
  the exception is the outcome.
\<close>

theorem summarize_pdf_index_fidelity:
  assumes "0 < max_workers self"
    and "\<forall>chunk \<in> set (create_semantic_chunks self text).
           captured (summarize_chunk self chunk md is_financial)"
  shows "case summarize_summaries self
             (map (\<lambda>chunk. entry (summarize_chunk self chunk md is_financial))
                  (create_semantic_chunks self text)) md is_financial of
        Inl e \<Rightarrow> summarize_pdf self picks text md is_financial = Inl e
      | Inr final \<Rightarrow>
          (\<exists>r. summarize_pdf self picks text md is_financial = Inr r
             \<and> chunk_count r = length (create_semantic_chunks self text)
             \<and> length (section_summaries r) = chunk_count r
             \<and> (\<forall>i < chunk_count r.
                   section_summaries r ! i =
                     entry (summarize_chunk self (create_semantic_chunks self text ! i) md is_financial))
             \<and> final_summary r = final)"
  using summarize_pdf_captured[OF assms, of picks]
  by (simp split: sum.splits)


theorem summarize_pdf_index_fidelity_witness:
  "\<exists>r. summarize_pdf (PDFSummarizer (flaky_llm_api (chunk_prompt ''de\<newline>\<newline>'' Map.empty False)) 5 200 4)
            [2, 0, 1] ''abcd\<newline>\<newline>de\<newline>\<newline>fgh'' Map.empty False = Inr r
       \<and> chunk_count r = 3
       \<and> length (section_summaries r) = 3
       \<and> section_summaries r ! 0 = ''reply to 141 characters''
       \<and> section_summaries r ! 1 = ''[Error summarizing this section: timeout]''
       \<and> section_summaries r ! 2 = ''reply to 140 characters''
       \<and> final_summary r = ''reply to 488 characters''"
proof -
  let ?self = "PDFSummarizer (flaky_llm_api (chunk_prompt ''de\<newline>\<newline>'' Map.empty False)) 5 200 4"
  let ?t = "''abcd\<newline>\<newline>de\<newline>\<newline>fgh''"
  have chunks: "create_semantic_chunks ?self ?t = [''abcd\<newline>\<newline>'', ''de\<newline>\<newline>'', ''fgh\<newline>\<newline>'']"
    by code_simp
  have workers: "0 < max_workers ?self"
    by (simp add: PDFSummarizer_def)
  have e0: "summarize_chunk ?self ''abcd\<newline>\<newline>'' Map.empty False = Inr ''reply to 141 characters''"
    by code_simp
  have e1: "summarize_chunk ?self ''de\<newline>\<newline>'' Map.empty False = Inl (Exception ''timeout'')"
    by code_simp
  have e2: "summarize_chunk ?self ''fgh\<newline>\<newline>'' Map.empty False = Inr ''reply to 140 characters''"
    by code_simp
  have reduce: "summarize_summaries ?self
      [''reply to 141 characters'', ''[Error summarizing this section: timeout]'',
       ''reply to 140 characters'']
      Map.empty False = Inr ''reply to 488 characters''"
    by code_simp
  have captured: "\<forall>chunk \<in> set (create_semantic_chunks ?self ?t).
      captured (summarize_chunk ?self chunk Map.empty False)"
    unfolding chunks by (simp add: e0 e1 e2)
  from summarize_pdf_index_fidelity [OF workers captured, of "[2, 0, 1]"]
  obtain r where r: "summarize_pdf ?self [2, 0, 1] ?t Map.empty False = Inr r"
    and count: "chunk_count r = 3" "length (section_summaries r) = chunk_count r"
    and nth: "\<forall>i < chunk_count r. section_summaries r ! i =
        entry (summarize_chunk ?self ([''abcd\<newline>\<newline>'', ''de\<newline>\<newline>'', ''fgh\<newline>\<newline>''] ! i) Map.empty False)"
    and final: "final_summary r = ''reply to 488 characters''"
    unfolding chunks by (auto simp: e0 e1 e2 reduce error_placeholder_def)
  from nth count have "section_summaries r ! 0 = ''reply to 141 characters''"
    and "section_summaries r ! 1 = ''[Error summarizing this section: timeout]''"
    and "section_summaries r ! 2 = ''reply to 140 characters''"
    by (simp_all add: e0 e1 e2 error_placeholder_def)
  with r count final show ?thesis by simp
qed

text \<open>
  Claim C2. When the capability raises an exception of class \<open>Exception\<close> for exactly one
  chunk index \<open>j\<close> among the chunks and returns a summary for every other index, then for
  every order of completion the map stage ends without an exception; the sorted summaries
  have one entry for each chunk; entry \<open>j\<close> is the placeholder that contains the error
  message and every other entry is the summary of its chunk; and \<open>summarize_pdf\<close> is the
  outcome of the reducer on all these entries, a record with \<open>chunk_count\<close> equal to the
  number of chunks whenever the reducer returns.
\<close>

theorem summarize_pdf_isolates_chunk_failure:
  assumes "0 < max_workers self"
    and "j < length (create_semantic_chunks self text)"
    and "summarize_chunk self (create_semantic_chunks self text ! j) md is_financial
           = Inl (Exception e)"
    and "\<forall>i < length (create_semantic_chunks self text). i \<noteq> j \<longrightarrow>
           (\<exists>summary. summarize_chunk self (create_semantic_chunks self text ! i) md is_financial
              = Inr summary)"
  shows "\<exists>chunk_summaries summaries.
           map_stage self picks (create_semantic_chunks self text) md is_financial
             = Inr chunk_summaries
           \<and> summaries = map snd (sort_key fst chunk_summaries)
           \<and> length summaries = length (create_semantic_chunks self text)
           \<and> summaries ! j = ''[Error summarizing this section: '' @ e @ '']''
           \<and> (\<forall>i < length (create_semantic_chunks self text). i \<noteq> j \<longrightarrow>
                 summarize_chunk self (create_semantic_chunks self text ! i) md is_financial
                   = Inr (summaries ! i))
           \<and> summarize_pdf self picks text md is_financial =
               (case summarize_summaries self summaries md is_financial of
                  Inl x \<Rightarrow> Inl x
                | Inr final \<Rightarrow>
                    Inr \<lparr>metadata = md, chunk_count = length (create_semantic_chunks self text),
                         section_summaries = summaries, final_summary = final\<rparr>)"
proof -
  let ?chunks = "create_semantic_chunks self text"
  let ?g = "\<lambda>chunk. summarize_chunk self chunk md is_financial"
  have each: "\<forall>i < length ?chunks. captured (?g (?chunks ! i))"
  proof (intro allI impI)
    fix i
    assume "i < length ?chunks"
    with assms(3,4) show "captured (?g (?chunks ! i))"
      by (cases "i = j") auto
  qed
  then have captured: "\<forall>chunk \<in> set ?chunks. captured (?g chunk)"
    by (auto simp: in_set_conv_nth)
  from map_stage_captured[OF captured, of picks]
  obtain chunk_summaries where
    stage: "map_stage self picks ?chunks md is_financial = Inr chunk_summaries"
    and sorted: "map snd (sort_key fst chunk_summaries) = map (\<lambda>chunk. entry (?g chunk)) ?chunks"
    by blast
  let ?summaries = "map snd (sort_key fst chunk_summaries)"
  have len: "length ?summaries = length ?chunks"
    unfolding sorted by simp
  have failed: "?summaries ! j = ''[Error summarizing this section: '' @ e @ '']''"
    unfolding sorted using assms(2,3) by (simp add: error_placeholder_def)
  have others: "\<forall>i < length ?chunks. i \<noteq> j \<longrightarrow> ?g (?chunks ! i) = Inr (?summaries ! i)"
    unfolding sorted using assms(4) by auto
  have "summarize_pdf self picks text md is_financial =
      (case summarize_summaries self ?summaries md is_financial of
         Inl x \<Rightarrow> Inl x
       | Inr final \<Rightarrow>
           Inr \<lparr>metadata = md, chunk_count = length ?chunks,
                section_summaries = ?summaries, final_summary = final\<rparr>)"
    unfolding sorted by (rule summarize_pdf_captured[OF assms(1) captured])
  with stage len failed others show ?thesis by blast
qed

theorem summarize_pdf_isolates_chunk_failure_witness:
  "\<exists>chunk_summaries summaries.
     map_stage (PDFSummarizer (flaky_llm_api (chunk_prompt ''de\<newline>\<newline>'' Map.empty False)) 5 200 4)
       [2, 0, 1] [''abcd\<newline>\<newline>'', ''de\<newline>\<newline>'', ''fgh\<newline>\<newline>''] Map.empty False = Inr chunk_summaries
     \<and> summaries = map snd (sort_key fst chunk_summaries)
     \<and> length summaries = 3
     \<and> summaries ! 1 = ''[Error summarizing this section: timeout]''
     \<and> Inr (summaries ! 0) = (Inr ''reply to 141 characters'' :: raised + string)
     \<and> Inr (summaries ! 2) = (Inr ''reply to 140 characters'' :: raised + string)"
proof -
  let ?self = "PDFSummarizer (flaky_llm_api (chunk_prompt ''de\<newline>\<newline>'' Map.empty False)) 5 200 4"
  let ?t = "''abcd\<newline>\<newline>de\<newline>\<newline>fgh''"
  have chunks: "create_semantic_chunks ?self ?t = [''abcd\<newline>\<newline>'', ''de\<newline>\<newline>'', ''fgh\<newline>\<newline>'']"
    by code_simp
  have workers: "0 < max_workers ?self"
    by (simp add: PDFSummarizer_def)
  have e0: "summarize_chunk ?self ''abcd\<newline>\<newline>'' Map.empty False = Inr ''reply to 141 characters''"
    by code_simp
  have e1: "summarize_chunk ?self ''de\<newline>\<newline>'' Map.empty False = Inl (Exception ''timeout'')"
    by code_simp
  have e2: "summarize_chunk ?self ''fgh\<newline>\<newline>'' Map.empty False = Inr ''reply to 140 characters''"
    by code_simp
  have j: "1 < length (create_semantic_chunks ?self ?t)"
    unfolding chunks by simp
  have failed: "summarize_chunk ?self (create_semantic_chunks ?self ?t ! 1) Map.empty False
      = Inl (Exception ''timeout'')"
    unfolding chunks by (simp add: e1)
  have others: "\<forall>i < length (create_semantic_chunks ?self ?t). i \<noteq> 1 \<longrightarrow>
      (\<exists>summary. summarize_chunk ?self (create_semantic_chunks ?self ?t ! i) Map.empty False
         = Inr summary)"
    unfolding chunks by (auto simp: e0 e2 less_Suc_eq numeral_3_eq_3)
  from summarize_pdf_isolates_chunk_failure [OF workers j failed others, of "[2, 0, 1]"]
  obtain chunk_summaries summaries where
    stage: "map_stage ?self [2, 0, 1] (create_semantic_chunks ?self ?t) Map.empty False
        = Inr chunk_summaries"
    and s: "summaries = map snd (sort_key fst chunk_summaries)"
    and len: "length summaries = length (create_semantic_chunks ?self ?t)"
    and bad: "summaries ! 1 = ''[Error summarizing this section: '' @ ''timeout'' @ '']''"
    and good: "\<forall>i < length (create_semantic_chunks ?self ?t). i \<noteq> 1 \<longrightarrow>
        summarize_chunk ?self (create_semantic_chunks ?self ?t ! i) Map.empty False
          = Inr (summaries ! i)"
    by blast
  from good[rule_format, of 0] good[rule_format, of 2]
  have "Inr (summaries ! 0) = (Inr ''reply to 141 characters'' :: raised + string)"
    and "Inr (summaries ! 2) = (Inr ''reply to 140 characters'' :: raised + string)"
    unfolding chunks by (simp_all add: e0 e2)
  with stage s len bad show ?thesis
    unfolding chunks by auto
qed

text \<open>
  Claim C6. When the map stage has ended (the pool started and every outcome was captured)
  and the capability raises in the final combining call, that exception is the outcome of
  \<open>summarize_pdf\<close> and no record is returned. And whenever \<open>summarize_pdf\<close> returns a record,
  its \<open>final_summary\<close> is what the combining call returned for its \<open>section_summaries\<close>:
  a failure of the reducer is never replaced by an empty or a placeholder summary.
\<close>

theorem reduce_failure_propagates:
  "(0 < max_workers self
      \<and> (\<forall>chunk \<in> set (create_semantic_chunks self text).
            captured (summarize_chunk self chunk md is_financial))
      \<and> summarize_summaries self
            (map (\<lambda>chunk. entry (summarize_chunk self chunk md is_financial))
                 (create_semantic_chunks self text)) md is_financial = Inl e
      \<longrightarrow> summarize_pdf self picks text md is_financial = Inl e)
   \<and> (\<forall>r. summarize_pdf self picks text md is_financial = Inr r
          \<longrightarrow> summarize_summaries self (section_summaries r) md is_financial
                = Inr (final_summary r))"
proof (intro conjI impI allI)
  assume a: "0 < max_workers self
      \<and> (\<forall>chunk \<in> set (create_semantic_chunks self text).
            captured (summarize_chunk self chunk md is_financial))
      \<and> summarize_summaries self
            (map (\<lambda>chunk. entry (summarize_chunk self chunk md is_financial))
                 (create_semantic_chunks self text)) md is_financial = Inl e"
  then have "0 < max_workers self"
    and "\<forall>chunk \<in> set (create_semantic_chunks self text).
            captured (summarize_chunk self chunk md is_financial)"
    by simp_all
  from summarize_pdf_captured[OF this, of picks] a
  show "summarize_pdf self picks text md is_financial = Inl e"
    by simp
next
  fix r
  assume "summarize_pdf self picks text md is_financial = Inr r"
  then show "summarize_summaries self (section_summaries r) md is_financial
      = Inr (final_summary r)"
    by (auto simp: summarize_pdf_def Let_def split: if_splits sum.splits)
qed

theorem reduce_failure_propagates_witness:
  "summarize_pdf (PDFSummarizer (flaky_llm_api ''You are creating a final'') 5 200 4)
     [2, 0, 1] ''abcd\<newline>\<newline>de\<newline>\<newline>fgh'' Map.empty False = Inl (Exception ''timeout'')"
proof -
  let ?self = "PDFSummarizer (flaky_llm_api ''You are creating a final'') 5 200 4"
  let ?t = "''abcd\<newline>\<newline>de\<newline>\<newline>fgh''"
  have chunks: "create_semantic_chunks ?self ?t = [''abcd\<newline>\<newline>'', ''de\<newline>\<newline>'', ''fgh\<newline>\<newline>'']"
    by code_simp
  have workers: "0 < max_workers ?self"
    by (simp add: PDFSummarizer_def)
  have e0: "summarize_chunk ?self ''abcd\<newline>\<newline>'' Map.empty False = Inr ''reply to 141 characters''"
    by code_simp
  have e1: "summarize_chunk ?self ''de\<newline>\<newline>'' Map.empty False = Inr ''reply to 139 characters''"
    by code_simp
  have e2: "summarize_chunk ?self ''fgh\<newline>\<newline>'' Map.empty False = Inr ''reply to 140 characters''"
    by code_simp
  have reduce: "summarize_summaries ?self
      [''reply to 141 characters'', ''reply to 139 characters'', ''reply to 140 characters'']
      Map.empty False = Inl (Exception ''timeout'')"
    by code_simp
  have captured: "\<forall>chunk \<in> set (create_semantic_chunks ?self ?t).
      captured (summarize_chunk ?self chunk Map.empty False)"
    unfolding chunks by (simp add: e0 e1 e2)
  have "summarize_summaries ?self
      (map (\<lambda>chunk. entry (summarize_chunk ?self chunk Map.empty False))
           (create_semantic_chunks ?self ?t)) Map.empty False = Inl (Exception ''timeout'')"
    unfolding chunks by (simp add: e0 e1 e2 reduce)
  with reduce_failure_propagates [of ?self ?t Map.empty False "Exception ''timeout''" "[2, 0, 1]"]
    workers captured
  show ?thesis by blast
qed

text \<open>
  Claim C7. For a capability that is a fixed function from the prompt to a response,
  two runs on the same text and metadata give the same outcome, a record, whatever the
  two orders of completion and whatever the two positive sizes of the worker pool.
\<close>

theorem summarize_pdf_deterministic:
  assumes "llm_api self = (\<lambda>prompt. Inr (f prompt))"
    and "0 < workers1" and "0 < workers2"
  shows "summarize_pdf (self\<lparr>max_workers := workers1\<rparr>) picks1 text md is_financial
           = summarize_pdf (self\<lparr>max_workers := workers2\<rparr>) picks2 text md is_financial
       \<and> (\<exists>r. summarize_pdf (self\<lparr>max_workers := workers1\<rparr>) picks1 text md is_financial = Inr r
              \<and> section_summaries r =
                  map (\<lambda>chunk. f (chunk_prompt chunk md is_financial))
                      (create_semantic_chunks self text))"
proof -
  have run: "summarize_pdf (self\<lparr>max_workers := w\<rparr>) picks text md is_financial =
      Inr \<lparr>metadata = md, chunk_count = length (create_semantic_chunks self text),
           section_summaries =
             map (\<lambda>chunk. f (chunk_prompt chunk md is_financial)) (create_semantic_chunks self text),
           final_summary =
             f (reduce_prompt (map (\<lambda>chunk. f (chunk_prompt chunk md is_financial))
                                   (create_semantic_chunks self text)) md is_financial)\<rparr>"
    if "0 < w" for w picks
  proof -
    let ?self = "self\<lparr>max_workers := w\<rparr>"
    have chunks: "create_semantic_chunks ?self text = create_semantic_chunks self text"
      by (simp add: create_semantic_chunks_def Let_def)
    have chunk: "summarize_chunk ?self chunk md is_financial
        = Inr (f (chunk_prompt chunk md is_financial))" for chunk
      by (simp add: summarize_chunk_def assms(1))
    have reduce: "summarize_summaries ?self summaries md is_financial
        = Inr (f (reduce_prompt summaries md is_financial))" for summaries
      by (simp add: summarize_summaries_def assms(1))
    have workers: "0 < max_workers ?self" using that by simp
    have captured: "\<forall>chunk \<in> set (create_semantic_chunks ?self text).
        captured (summarize_chunk ?self chunk md is_financial)"
      by (simp add: chunk)
    from summarize_pdf_captured[OF workers captured, of picks]
    show ?thesis by (simp add: chunks chunk reduce)
  qed
  from run[OF assms(2), of picks1] run[OF assms(3), of picks2] show ?thesis by simp
qed

theorem summarize_pdf_deterministic_witness:
  "summarize_pdf (PDFSummarizer example_llm_api 5 200 1) [] ''abcd\<newline>\<newline>de\<newline>\<newline>fgh'' Map.empty True
     = summarize_pdf (PDFSummarizer example_llm_api 5 200 3) [2, 0, 1] ''abcd\<newline>\<newline>de\<newline>\<newline>fgh'' Map.empty True"
proof -
  let ?self = "PDFSummarizer example_llm_api 5 200 4"
  have llm: "llm_api ?self =
      (\<lambda>prompt. Inr (''This is where the LLM response would be for: '' @ take 50 prompt @ ''...''))"
    by (simp add: PDFSummarizer_def example_llm_api_def fun_eq_iff)
  have one: "?self\<lparr>max_workers := 1\<rparr> = PDFSummarizer example_llm_api 5 200 1"
    and three: "?self\<lparr>max_workers := 3\<rparr> = PDFSummarizer example_llm_api 5 200 3"
    by (simp_all add: PDFSummarizer_def)
  have "(0::int) < 1" and "(0::int) < 3" by simp_all
  from summarize_pdf_deterministic [OF llm this, of "[]" "''abcd\<newline>\<newline>de\<newline>\<newline>fgh''" Map.empty True "[2, 0, 1]"]
  show ?thesis unfolding one three by simp
qed

section \<open>The overlap parameter\<close>

lemma fallback_loop_last:
  "ps \<noteq> [] \<Longrightarrow> suffix (last ps @ sep) (snd (fallback_loop cs ps (chunks, cur)))"
proof (induction ps arbitrary: chunks cur)
  case Nil
  then show ?case by simp
next
  case (Cons para ps)
  show ?case
  proof (cases "ps = []")
    case True
    then show ?thesis by (simp add: suffix_def)
  next
    case False
    with Cons.IH show ?thesis by simp
  qed
qed

text \<open>Chunks that concatenate to a text and its final separator cover the text itself.\<close>

lemma cover_of_packing:
  assumes "concat f @ c = t @ sep" and "suffix sep c"
  shows "disjoint_cover t (f @ [c])"
proof -
  from assms(2) obtain x where c: "c = x @ sep"
    by (auto simp: suffix_def)
  with assms(1) have "concat (f @ [x]) = t" by simp
  moreover have "list_all2 (\<lambda>chunk piece. chunk = piece \<or> chunk = piece @ sep) (f @ [c]) (f @ [x])"
    using c by (simp add: list_all2_appendI list.rel_refl)
  ultimately show ?thesis
    unfolding disjoint_cover_def by blast
qed

lemma suffix_sep: "suffix (p @ sep) c \<Longrightarrow> suffix sep c"
  by (auto simp: suffix_def)

lemma cover_resplit: "disjoint_cover chunk (resplit cs [] chunk)"
proof (cases "oversized cs chunk")
  case False
  then have "resplit cs [] chunk = [chunk]" by (simp add: resplit_def)
  moreover have "disjoint_cover chunk [chunk]"
    unfolding disjoint_cover_def by (rule exI[of _ "[chunk]"]) simp
  ultimately show ?thesis by simp
next
  case True
  let ?ps = "split_paragraphs chunk"
  obtain f c where fc: "resplit_loop cs ?ps ([], []) = (f, c)"
    by (cases "resplit_loop cs ?ps ([], [])")
  from resplit_loop_last[OF split_paragraphs_nonempty, of chunk cs "[]" "[]"] fc
  have last: "suffix sep c" by (auto dest: suffix_sep)
  then have ne: "c \<noteq> []" by (auto simp: suffix_def sep_def)
  from resplit_loop_concat[of cs ?ps "[]" "[]"] fc
  have "concat f @ c = chunk @ sep" by (simp add: concat_split_paragraphs)
  then have "disjoint_cover chunk (f @ [c])" using last by (rule cover_of_packing)
  with True fc ne show ?thesis by (simp add: resplit_def)
qed

lemma cover_fallback: "disjoint_cover t (fallback_chunks cs t)"
proof -
  let ?ps = "split_paragraphs t"
  obtain f c where fc: "fallback_loop cs ?ps ([], []) = (f, c)"
    by (cases "fallback_loop cs ?ps ([], [])")
  from fallback_loop_last[OF split_paragraphs_nonempty, of t cs "[]" "[]"] fc
  have last: "suffix sep c" by (auto dest: suffix_sep)
  then have ne: "c \<noteq> []" by (auto simp: suffix_def sep_def)
  from fallback_loop_concat[of cs ?ps "[]" "[]"] fc
  have "concat f @ c = t @ sep" by (simp add: concat_split_paragraphs)
  then have "disjoint_cover t (f @ [c])" using last by (rule cover_of_packing)
  with fc ne show ?thesis by (simp add: fallback_chunks_def)
qed

lemma cover_append:
  "disjoint_cover s xs \<Longrightarrow> disjoint_cover t ys \<Longrightarrow> disjoint_cover (s @ t) (xs @ ys)"
proof -
  assume "disjoint_cover s xs" and "disjoint_cover t ys"
  then obtain ps qs where "concat ps = s"
    and "list_all2 (\<lambda>chunk piece. chunk = piece \<or> chunk = piece @ sep) xs ps"
    and "concat qs = t"
    and "list_all2 (\<lambda>chunk piece. chunk = piece \<or> chunk = piece @ sep) ys qs"
    unfolding disjoint_cover_def by blast
  then have "concat (ps @ qs) = s @ t"
    and "list_all2 (\<lambda>chunk piece. chunk = piece \<or> chunk = piece @ sep) (xs @ ys) (ps @ qs)"
    by (simp_all add: list_all2_appendI)
  then show ?thesis unfolding disjoint_cover_def by blast
qed

lemma cover_sections:
  "disjoint_cover (concat sections) (concat (map (resplit cs []) sections))"
proof (induction sections)
  case Nil
  show ?case unfolding disjoint_cover_def by (rule exI[of _ "[]"]) simp
next
  case (Cons s sections)
  from cover_append[OF cover_resplit[of s cs] Cons.IH] show ?case by simp
qed

lemma cover_create_semantic_chunks: "disjoint_cover t (create_semantic_chunks self t)"
proof (cases "1 < length (detect_section_boundaries t) \<and> length (detect_section_boundaries t) < 30")
  case True
  then have "create_semantic_chunks self t =
      concat (map (resplit (chunk_size self) []) (section_chunks t (detect_section_boundaries t)))"
    by (simp add: create_semantic_chunks_boundary)
  with cover_sections[of "section_chunks t (detect_section_boundaries t)" "chunk_size self"]
  show ?thesis by (simp add: concat_section_chunks)
next
  case False
  then have "create_semantic_chunks self t = fallback_chunks (chunk_size self) t"
    by (rule create_semantic_chunks_fallback)
  with cover_fallback[of t "chunk_size self"] show ?thesis by simp
qed

text \<open>
  Claim C10. Two summarizers that differ only in \<open>overlap\<close> give the same chunks and the
  same outcome of \<open>summarize_pdf\<close>, for every text, metadata, capability and order of
  completion; and the chunks never share characters of the document: the text is cut
  into consecutive pieces, one in each chunk.
\<close>

theorem overlap_has_no_effect:
  "create_semantic_chunks (PDFSummarizer llm cs overlap1 workers) text
     = create_semantic_chunks (PDFSummarizer llm cs overlap2 workers) text
   \<and> summarize_pdf (PDFSummarizer llm cs overlap1 workers) picks text md is_financial
     = summarize_pdf (PDFSummarizer llm cs overlap2 workers) picks text md is_financial
   \<and> disjoint_cover text (create_semantic_chunks (PDFSummarizer llm cs overlap1 workers) text)"
proof -
  have chunks: "create_semantic_chunks (PDFSummarizer llm cs overlap1 workers) text
     = create_semantic_chunks (PDFSummarizer llm cs overlap2 workers) text"
    by (simp add: create_semantic_chunks_def PDFSummarizer_def Let_def)
  have "summarize_pdf (PDFSummarizer llm cs overlap1 workers) picks text md is_financial
     = summarize_pdf (PDFSummarizer llm cs overlap2 workers) picks text md is_financial"
  proof -
    have stage: "map_stage (PDFSummarizer llm cs overlap1 workers) picks chunk_list md is_financial
        = map_stage (PDFSummarizer llm cs overlap2 workers) picks chunk_list md is_financial"
      for chunk_list
      by (simp add: PDFSummarizer_def map_stage_def summarize_chunk_def)
    have reduce: "summarize_summaries (PDFSummarizer llm cs overlap1 workers) summaries md is_financial
        = summarize_summaries (PDFSummarizer llm cs overlap2 workers) summaries md is_financial"
      for summaries
      by (simp add: PDFSummarizer_def summarize_summaries_def)
    have pool: "max_workers (PDFSummarizer llm cs overlap1 workers)
        = max_workers (PDFSummarizer llm cs overlap2 workers)"
      by (simp add: PDFSummarizer_def)
    show ?thesis
      unfolding summarize_pdf_def chunks stage reduce pool by (rule refl)
  qed
  with chunks cover_create_semantic_chunks show ?thesis by blast
qed

end
